theory Spec2Isabelle
  imports Complex_Main "HOL-Library.Multiset" "HOL-Library.Monad_Syntax"
begin


section \<open>Vectors, iterators and the standard algorithms the index calls\<close>

text \<open>
  Conventions of the embedding.
  \<^item> \<^verbatim>\<open>float\<close> and \<^verbatim>\<open>double\<close> are idealised as \<^typ>\<open>real\<close>: no rounding, overflow or NaN.
  \<^item> \<^verbatim>\<open>int\<close> quantities that count something (samples, trees, levels, positions, votes)
    are \<^typ>\<open>nat\<close>; they stay far below \<^verbatim>\<open>INT_MAX\<close> in every use the model covers.
  \<^item> An Eigen matrix is a function from (row, column) to its coefficient.
  \<^item> A \<^verbatim>\<open>std::vector\<close> is a list; an iterator into it is a position. Reading a
    position outside the vector is undefined behaviour in C++ and is the value
    \<^term>\<open>None\<close> here, as is a call that never returns.
\<close>

definition deref :: "'a list \<Rightarrow> nat \<Rightarrow> 'a option" where
  "deref xs p = (if p < length xs then Some (xs ! p) else None)"

text \<open>The elements of the iterator range \<^verbatim>\<open>[lo, hi)\<close>.\<close>

definition slice :: "'a list \<Rightarrow> nat \<Rightarrow> nat \<Rightarrow> 'a list" where
  "slice xs lo hi = take (hi - lo) (drop lo xs)"

text \<open>A loop whose body can fail: the first failure ends it.\<close>

fun fold_option :: "('a \<Rightarrow> 's \<Rightarrow> 's option) \<Rightarrow> 'a list \<Rightarrow> 's \<Rightarrow> 's option" where
  "fold_option f [] s = Some s"
| "fold_option f (x # xs) s = (case f x s of None \<Rightarrow> None | Some s' \<Rightarrow> fold_option f xs s')"

text \<open>
  \<^verbatim>\<open>std::max_element(first, last, comp)\<close> with \<^verbatim>\<open>comp(a, b) = key(a) < key(b)\<close>: the offset
  from \<^verbatim>\<open>first\<close> of the first largest element; on an empty range it returns \<^verbatim>\<open>last\<close>,
  offset 0.
\<close>

definition max_element :: "('a \<Rightarrow> real) \<Rightarrow> 'a list \<Rightarrow> nat" where
  "max_element key xs =
     fold (\<lambda>p largest. if key (xs ! largest) < key (xs ! p) then p else largest)
       [1..<length xs] 0"

text \<open>
  Eigen's \<^verbatim>\<open>minCoeff(&index)\<close> on a non-empty vector: the position of the first
  smallest coefficient.
\<close>

definition minCoeff :: "real list \<Rightarrow> nat" where
  "minCoeff ds =
     fold (\<lambda>p smallest. if ds ! p < ds ! smallest then p else smallest) [1..<length ds] 0"

text \<open>
  \<^verbatim>\<open>std::nth_element\<close> and \<^verbatim>\<open>std::partial_sort\<close> are library functions whose result is
  fixed by the C++ standard only up to their postcondition, so the model takes them as
  parameters. Both are called with a comparator of the form \<^verbatim>\<open>key(i1) < key(i2)\<close>; the
  parameter receives \<^verbatim>\<open>key\<close>, the position \<^verbatim>\<open>nth\<close> (or \<^verbatim>\<open>middle\<close>) as an offset, and the
  range, and returns the rearranged range.

  The postcondition of \<^verbatim>\<open>nth_element\<close>: a rearrangement in which no element before
  \<^verbatim>\<open>nth\<close> is greater, and no element after it is smaller, than the one at \<^verbatim>\<open>nth\<close>.
\<close>

definition nth_element_spec :: "(('a \<Rightarrow> real) \<Rightarrow> nat \<Rightarrow> 'a list \<Rightarrow> 'a list) \<Rightarrow> bool" where
  "nth_element_spec nth_element \<longleftrightarrow>
     (\<forall>key nth_pos xs. nth_pos \<le> length xs \<longrightarrow>
        mset (nth_element key nth_pos xs) = mset xs \<and>
        (\<forall>i j. i \<le> nth_pos \<and> nth_pos \<le> j \<and> j < length xs \<longrightarrow>
           key (nth_element key nth_pos xs ! i) \<le> key (nth_element key nth_pos xs ! j)))"

text \<open>
  The postcondition of \<^verbatim>\<open>partial_sort\<close>: a rearrangement whose first \<^verbatim>\<open>middle\<close> elements
  are in ascending order and not greater than any of the others.
\<close>

definition partial_sort_spec :: "(('a \<Rightarrow> real) \<Rightarrow> nat \<Rightarrow> 'a list \<Rightarrow> 'a list) \<Rightarrow> bool" where
  "partial_sort_spec partial_sort \<longleftrightarrow>
     (\<forall>key middle xs. middle \<le> length xs \<longrightarrow>
        mset (partial_sort key middle xs) = mset xs \<and>
        sorted (map key (take middle (partial_sort key middle xs))) \<and>
        (\<forall>a\<in>set (take middle (partial_sort key middle xs)).
           \<forall>b\<in>set (drop middle (partial_sort key middle xs)). key a \<le> key b))"

text \<open>A conforming instance of both, used to run the model on concrete inputs.\<close>

definition sort_nth :: "('a \<Rightarrow> real) \<Rightarrow> nat \<Rightarrow> 'a list \<Rightarrow> 'a list" where
  "sort_nth key nth_pos xs = sort_key key xs"

section \<open>Leaf sizes and leaf offsets\<close>

text \<open>
  \<^verbatim>\<open>Mrpt::count_leaf_sizes\<close>. The recursion stops when \<^verbatim>\<open>level == tree_depth\<close>; started
  above \<^verbatim>\<open>tree_depth\<close> it would never return.
\<close>

function count_leaf_sizes :: "nat \<Rightarrow> nat \<Rightarrow> nat \<Rightarrow> nat list \<Rightarrow> nat list option" where
  "count_leaf_sizes n level tree_depth out_leaf_sizes =
     (if level = tree_depth then Some (out_leaf_sizes @ [n])
      else if tree_depth < level then None
      else do {
        out1 \<leftarrow> count_leaf_sizes (n - n div 2) (level + 1) tree_depth out_leaf_sizes;
        count_leaf_sizes (n div 2) (level + 1) tree_depth out1
      })"
  by pat_completeness auto
termination
  by (relation "measure (\<lambda>(n, level, tree_depth, out). tree_depth - level)") auto

declare count_leaf_sizes.simps [simp del]

text \<open>\<^verbatim>\<open>Mrpt::count_first_leaf_indices\<close>: the prefix sums of the leaf sizes.\<close>

definition count_first_leaf_indices :: "nat \<Rightarrow> nat \<Rightarrow> nat list option" where
  "count_first_leaf_indices n depth =
     do {
       leaf_sizes \<leftarrow> count_leaf_sizes n 0 depth [];
       Some (fold (\<lambda>i indices. indices[i + 1 := indices ! i + leaf_sizes ! i])
               [0..<length leaf_sizes] (replicate (length leaf_sizes + 1) 0))
     }"

text \<open>
  \<^verbatim>\<open>Mrpt::count_first_leaf_indices_all\<close>: one offset vector per depth \<^verbatim>\<open>0..depth_max\<close>,
  appended to whatever \<^verbatim>\<open>indices\<close> already holds.
\<close>

definition count_first_leaf_indices_all :: "nat list list \<Rightarrow> nat \<Rightarrow> nat \<Rightarrow> nat list list option" where
  "count_first_leaf_indices_all indices n depth_max =
     fold_option (\<lambda>d indices. do { idx \<leftarrow> count_first_leaf_indices n d; Some (indices @ [idx]) })
       [0..<depth_max + 1] indices"

section \<open>Growing one tree\<close>

text \<open>
  \<^verbatim>\<open>Mrpt::grow_subtree\<close>. The state is the split-point matrix and the index vector of the
  tree; \<^verbatim>\<open>lo\<close> and \<^verbatim>\<open>hi\<close> are the positions of the iterators \<^verbatim>\<open>begin\<close> and \<^verbatim>\<open>end\<close>.
  On an empty range the even branch dereferences \<^verbatim>\<open>mid\<close>, which is \<^verbatim>\<open>end\<close>.
\<close>

function grow_subtree ::
  "((nat \<Rightarrow> real) \<Rightarrow> nat \<Rightarrow> nat list \<Rightarrow> nat list) \<Rightarrow> nat \<Rightarrow> (nat \<Rightarrow> nat \<Rightarrow> real) \<Rightarrow> nat \<Rightarrow>
   (nat \<Rightarrow> nat \<Rightarrow> real) \<times> nat list \<Rightarrow> nat \<Rightarrow> nat \<Rightarrow> nat \<Rightarrow> nat \<Rightarrow>
   ((nat \<Rightarrow> nat \<Rightarrow> real) \<times> nat list) option" where
  "grow_subtree nth_element depth tree_projections n_tree (split_points, indices) lo hi tree_level i =
     (let n = hi - lo; idx_left = 2 * i + 1; idx_right = idx_left + 1 in
      if tree_level = depth then Some (split_points, indices)
      else if depth < tree_level then None
      else
        let key = tree_projections tree_level;
            indices1 = take lo indices @ nth_element key (n div 2) (slice indices lo hi)
                         @ drop hi indices;
            mid = hi - n div 2
        in do {
          s \<leftarrow> (if n mod 2 \<noteq> 0 then do {
                  p \<leftarrow> deref indices1 (mid - 1);
                  Some (key p)
                } else do {
                  let left_it = lo + max_element key (slice indices1 lo mid);
                  m \<leftarrow> deref indices1 mid;
                  l \<leftarrow> deref indices1 left_it;
                  Some ((key m + key l) / 2)
                });
          st \<leftarrow> grow_subtree nth_element depth tree_projections n_tree
                  (split_points(i := (split_points i)(n_tree := s)), indices1)
                  lo mid (tree_level + 1) idx_left;
          grow_subtree nth_element depth tree_projections n_tree st mid hi (tree_level + 1) idx_right
        })"
  by pat_completeness auto
termination
  by (relation "measure (\<lambda>(f, depth, tp, t, st, lo, hi, tree_level, i). depth - tree_level)") auto

declare grow_subtree.simps [simp del]

text \<open>
  The calls \<^verbatim>\<open>grow_subtree\<close> makes below \<^verbatim>\<open>(lo, hi, tree_level, i)\<close>, itself included, in
  the order they are made: each internal call passes \<^verbatim>\<open>(begin, mid)\<close> to node \<^verbatim>\<open>2i + 1\<close>
  and \<^verbatim>\<open>(mid, end)\<close> to node \<^verbatim>\<open>2i + 2\<close>, with \<^verbatim>\<open>mid = end - n/2\<close>.
\<close>

function grow_calls :: "nat \<Rightarrow> nat \<Rightarrow> nat \<Rightarrow> nat \<Rightarrow> nat \<Rightarrow> (nat \<times> nat \<times> nat \<times> nat) list" where
  "grow_calls depth lo hi tree_level i =
     (if depth \<le> tree_level then [(lo, hi, tree_level, i)]
      else (lo, hi, tree_level, i)
             # grow_calls depth lo (hi - (hi - lo) div 2) (tree_level + 1) (2 * i + 1)
             @ grow_calls depth (hi - (hi - lo) div 2) hi (tree_level + 1) (2 * i + 2))"
  by pat_completeness auto
termination
  by (relation "measure (\<lambda>(depth, lo, hi, tree_level, i). depth - tree_level)") auto

declare grow_calls.simps [simp del]

section \<open>The query path\<close>

text \<open>
  The routing loop of \<^verbatim>\<open>Mrpt::query\<close> for one tree: \<^verbatim>\<open>depth\<close> comparisons from the root,
  returning the final \<^verbatim>\<open>idx_tree\<close>.
\<close>

definition route :: "(nat \<Rightarrow> nat \<Rightarrow> real) \<Rightarrow> (nat \<Rightarrow> real) \<Rightarrow> nat \<Rightarrow> nat \<Rightarrow> nat" where
  "route split_points projected_query depth n_tree =
     fold (\<lambda>d idx_tree.
             let j = n_tree * depth + d;
                 idx_left = 2 * idx_tree + 1;
                 idx_right = idx_left + 1;
                 split_point = split_points idx_tree n_tree
             in if projected_query j \<le> split_point then idx_left else idx_right)
       [0..<depth] 0"

text \<open>
  One iteration of the inner vote loop: \<^verbatim>\<open>idx = indices[i]; if (++votes(idx) ==
  votes_required) elected(n_elected++) = idx;\<close>. The state is \<^verbatim>\<open>(votes, elected,
  n_elected)\<close>; \<^verbatim>\<open>elected\<close> is a buffer of fixed size.
\<close>

definition vote_one ::
  "nat \<Rightarrow> nat list \<Rightarrow> nat \<Rightarrow> nat list \<times> nat list \<times> nat \<Rightarrow> (nat list \<times> nat list \<times> nat) option" where
  "vote_one votes_required indices i st =
     (case st of (votes, elected, n_elected) \<Rightarrow>
        do {
          idx \<leftarrow> deref indices i;
          v \<leftarrow> deref votes idx;
          let votes1 = votes[idx := v + 1];
          if v + 1 = votes_required then
            (if n_elected < length elected
             then Some (votes1, elected[n_elected := idx], n_elected + 1)
             else None)
          else Some (votes1, elected, n_elected)
        })"

text \<open>The body of the outer vote loop, for tree \<^verbatim>\<open>n_tree\<close>.\<close>

definition vote_tree ::
  "nat \<Rightarrow> nat list \<Rightarrow> nat list \<Rightarrow> nat list list \<Rightarrow> nat \<Rightarrow> nat list \<times> nat list \<times> nat \<Rightarrow>
   (nat list \<times> nat list \<times> nat) option" where
  "vote_tree votes_required leaf_first_indices found_leaves tree_leaves n_tree st =
     do {
       found \<leftarrow> deref found_leaves n_tree;
       leaf_begin \<leftarrow> deref leaf_first_indices found;
       leaf_end \<leftarrow> deref leaf_first_indices (found + 1);
       indices \<leftarrow> deref tree_leaves n_tree;
       fold_option (vote_one votes_required indices) [leaf_begin..<leaf_end] st
     }"

text \<open>
  The vote count of \<^verbatim>\<open>Mrpt::query\<close>: the buffer \<^verbatim>\<open>elected\<close> has
  \<^verbatim>\<open>n_trees * max_leaf_size\<close> slots (their initial content is never read), \<^verbatim>\<open>votes\<close> is
  zero-initialised.
\<close>

definition count_votes ::
  "nat \<Rightarrow> nat \<Rightarrow> nat \<Rightarrow> nat \<Rightarrow> nat list \<Rightarrow> nat list \<Rightarrow> nat list list \<Rightarrow>
   (nat list \<times> nat list \<times> nat) option" where
  "count_votes n_samples n_trees depth votes_required leaf_first_indices found_leaves tree_leaves =
     (let n_elected = 0;
          max_leaf_size = n_samples div 2 ^ depth + 1;
          elected = replicate (n_trees * max_leaf_size) 0;
          votes = replicate n_samples 0
      in fold_option (vote_tree votes_required leaf_first_indices found_leaves tree_leaves)
           [0..<n_trees] (votes, elected, n_elected))"

text \<open>\<^verbatim>\<open>(X->col(idx) - q).squaredNorm()\<close>.\<close>

definition squared_distance :: "(nat \<Rightarrow> nat \<Rightarrow> real) \<Rightarrow> nat \<Rightarrow> nat \<Rightarrow> (nat \<Rightarrow> real) \<Rightarrow> real" where
  "squared_distance X dimension idx q = (\<Sum>c<dimension. (X c idx - q c)\<^sup>2)"

text \<open>
  \<^verbatim>\<open>Mrpt::exact_knn\<close>. The result is the content of the \<^verbatim>\<open>k\<close> slots of \<^verbatim>\<open>out\<close> and of
  \<^verbatim>\<open>out_distances\<close> (as if requested). \<^verbatim>\<open>indices\<close> is the vector of candidates, of which
  the first \<^verbatim>\<open>n_elected\<close> are read; a candidate that is no column of \<^verbatim>\<open>X\<close> is an
  out-of-range read.
\<close>

definition exact_knn ::
  "((nat \<Rightarrow> real) \<Rightarrow> nat \<Rightarrow> nat list \<Rightarrow> nat list) \<Rightarrow> (nat \<Rightarrow> nat \<Rightarrow> real) \<Rightarrow> nat \<Rightarrow> nat \<Rightarrow>
   (nat \<Rightarrow> real) \<Rightarrow> nat \<Rightarrow> nat list \<Rightarrow> nat \<Rightarrow> (int list \<times> real list) option" where
  "exact_knn partial_sort X dimension n_samples q k indices n_elected =
     (if n_elected = 0 then Some (replicate k (- 1), replicate k (- 1))
      else if length indices < n_elected \<or> (\<exists>p\<in>set (take n_elected indices). n_samples \<le> p)
      then None
      else
        let distances = map (\<lambda>i. squared_distance X dimension (indices ! i) q) [0..<n_elected] in
        if k = 1 then
          let index = minCoeff distances in
          Some ([if n_elected \<noteq> 0 then int (indices ! index) else - 1],
                [if n_elected \<noteq> 0 then sqrt (distances ! index) else - 1])
        else
          let n_to_sort = (if n_elected > k then k else n_elected);
              idx = partial_sort (\<lambda>i. distances ! i) n_to_sort [0..<n_elected]
          in Some (map (\<lambda>i. if i < n_elected then int (indices ! (idx ! i)) else - 1) [0..<k],
                   map (\<lambda>i. if i < n_elected then sqrt (distances ! (idx ! i)) else - 1) [0..<k]))"

text \<open>Products with the projection matrix: dense, and sparse as a list of triplets.\<close>

definition dense_times :: "(nat \<Rightarrow> nat \<Rightarrow> real) \<Rightarrow> nat \<Rightarrow> (nat \<Rightarrow> real) \<Rightarrow> nat \<Rightarrow> real" where
  "dense_times M dimension q row = (\<Sum>c<dimension. M row c * q c)"

definition sparse_times :: "(nat \<times> nat \<times> real) list \<Rightarrow> (nat \<Rightarrow> real) \<Rightarrow> nat \<Rightarrow> real" where
  "sparse_times M q row =
     sum_list (map (\<lambda>(r, c, v). v * q c) (filter (\<lambda>(r, c, v). r = row) M))"

text \<open>
  Eigen's \<^verbatim>\<open>setFromTriplets\<close> followed by \<^verbatim>\<open>makeCompressed\<close>, as its documentation describes
  it: the stored entries end up in row-major order and the values of duplicate positions
  are summed. A sparse matrix is the list of its stored entries \<^verbatim>\<open>(row, col, value)\<close> in
  storage order.
\<close>

fun insert_triplet :: "nat \<times> nat \<times> real \<Rightarrow> (nat \<times> nat \<times> real) list \<Rightarrow> (nat \<times> nat \<times> real) list" where
  "insert_triplet t [] = [t]"
| "insert_triplet (r, c, v) ((r', c', v') # ts) =
     (if r = r' \<and> c = c' then (r', c', v' + v) # ts
      else if r < r' \<or> (r = r' \<and> c < c') then (r, c, v) # (r', c', v') # ts
      else (r', c', v') # insert_triplet (r, c, v) ts)"

definition setFromTriplets :: "(nat \<times> nat \<times> real) list \<Rightarrow> (nat \<times> nat \<times> real) list" where
  "setFromTriplets triplets = fold insert_triplet triplets []"

text \<open>
  \<^verbatim>\<open>Mrpt::build_sparse_random_matrix\<close> and \<^verbatim>\<open>Mrpt::build_dense_random_matrix\<close>. The random
  generator is a parameter: \<^verbatim>\<open>uni_draw j i\<close> and \<^verbatim>\<open>normal_draw j i\<close> are the values drawn for
  cell \<^verbatim>\<open>(j, i)\<close>.
\<close>

definition build_sparse_random_matrix ::
  "(nat \<Rightarrow> nat \<Rightarrow> real) \<Rightarrow> (nat \<Rightarrow> nat \<Rightarrow> real) \<Rightarrow> nat \<Rightarrow> nat \<Rightarrow> real \<Rightarrow> (nat \<times> nat \<times> real) list" where
  "build_sparse_random_matrix uni_draw normal_draw n_row n_col density =
     setFromTriplets
       (concat (map (\<lambda>j. concat (map (\<lambda>i. if uni_draw j i > density then []
                                           else [(j, i, normal_draw j i)]) [0..<n_col]))
                  [0..<n_row]))"

definition build_dense_random_matrix :: "(nat \<Rightarrow> nat \<Rightarrow> real) \<Rightarrow> nat \<Rightarrow> nat \<Rightarrow> nat \<Rightarrow> nat \<Rightarrow> real" where
  "build_dense_random_matrix normal_draw n_row n_col = (\<lambda>r c. normal_draw r c)"

text \<open>
  \<^verbatim>\<open>middleRows(src, n) \<close> of the old projection matrix copied to rows \<^verbatim>\<open>dst ..< dst + n\<close> of
  the new one, as the trimming functions do for every kept tree.
\<close>

definition copy_rows_dense ::
  "(nat \<Rightarrow> nat \<Rightarrow> real) \<Rightarrow> nat \<Rightarrow> nat \<Rightarrow> nat \<Rightarrow> (nat \<Rightarrow> nat \<Rightarrow> real) \<Rightarrow> nat \<Rightarrow> nat \<Rightarrow> real" where
  "copy_rows_dense old src dst n new =
     (\<lambda>r c. if dst \<le> r \<and> r < dst + n then old (src + (r - dst)) c else new r c)"

definition copy_rows_sparse ::
  "(nat \<times> nat \<times> real) list \<Rightarrow> nat \<Rightarrow> nat \<Rightarrow> nat \<Rightarrow> (nat \<times> nat \<times> real) list \<Rightarrow>
   (nat \<times> nat \<times> real) list" where
  "copy_rows_sparse old src dst n new =
     filter (\<lambda>(r, c, v). \<not> (dst \<le> r \<and> r < dst + n)) new
     @ map (\<lambda>(r, c, v). (dst + (r - src), c, v))
         (filter (\<lambda>(r, c, v). src \<le> r \<and> r < src + n) old)"

section \<open>The persistence format\<close>

text \<open>
  A file is the sequence of the 4-byte items \<^verbatim>\<open>fwrite\<close> put there. An item read back with
  \<^verbatim>\<open>fread\<close> into a variable of the type it was written from has the value written; a read
  past the end of the file, or of an item of the other type, leaves the variable
  indeterminate and is \<^term>\<open>None\<close>.
\<close>

datatype item = Int32 int | Float32 real

fun read_int :: "item list \<Rightarrow> (int \<times> item list) option" where
  "read_int (Int32 v # fd) = Some (v, fd)"
| "read_int _ = None"

fun read_float :: "item list \<Rightarrow> (real \<times> item list) option" where
  "read_float (Float32 v # fd) = Some (v, fd)"
| "read_float _ = None"

fun read_nat :: "item list \<Rightarrow> (nat \<times> item list) option" where
  "read_nat (Int32 v # fd) = (if v < 0 then None else Some (nat v, fd))"
| "read_nat _ = None"

fun read_floats :: "nat \<Rightarrow> item list \<Rightarrow> (real list \<times> item list) option" where
  "read_floats 0 fd = Some ([], fd)"
| "read_floats (Suc n) fd =
     do { (v, fd1) \<leftarrow> read_float fd; (vs, fd2) \<leftarrow> read_floats n fd1; Some (v # vs, fd2) }"

fun read_nats :: "nat \<Rightarrow> item list \<Rightarrow> (nat list \<times> item list) option" where
  "read_nats 0 fd = Some ([], fd)"
| "read_nats (Suc n) fd =
     do { (v, fd1) \<leftarrow> read_nat fd; (vs, fd2) \<leftarrow> read_nats n fd1; Some (v # vs, fd2) }"

text \<open>The loop of \<^verbatim>\<open>load\<close> that reads the leaves of \<^verbatim>\<open>n\<close> trees: a size, then that many indices.\<close>

fun read_leaves :: "nat \<Rightarrow> item list \<Rightarrow> (nat list list \<times> item list) option" where
  "read_leaves 0 fd = Some ([], fd)"
| "read_leaves (Suc n) fd =
     do {
       (sz, fd1) \<leftarrow> read_nat fd;
       (leaves, fd2) \<leftarrow> read_nats sz fd1;
       (rest, fd3) \<leftarrow> read_leaves n fd2;
       Some (leaves # rest, fd3)
     }"

text \<open>The loop of \<^verbatim>\<open>load\<close> that reads \<^verbatim>\<open>non_zeros\<close> triplets.\<close>

fun read_triplets :: "nat \<Rightarrow> item list \<Rightarrow> ((nat \<times> nat \<times> real) list \<times> item list) option" where
  "read_triplets 0 fd = Some ([], fd)"
| "read_triplets (Suc n) fd =
     do {
       (row, fd1) \<leftarrow> read_nat fd;
       (col, fd2) \<leftarrow> read_nat fd1;
       (val, fd3) \<leftarrow> read_float fd2;
       (rest, fd4) \<leftarrow> read_triplets n fd3;
       Some ((row, col, val) # rest, fd4)
     }"

section \<open>Parameters and the autotuner's parameter sets\<close>

text \<open>The C++ \<^verbatim>\<open>struct Parameters\<close>.\<close>

record Parameters =
  n_trees :: nat
  depth :: nat
  votes :: nat
  estimated_qtime :: real
  estimated_recall :: real

text \<open>A default-constructed \<^verbatim>\<open>Parameters par;\<close>: every member initialiser is zero.\<close>

definition Parameters_default :: Parameters where
  "Parameters_default =
     \<lparr>n_trees = 0, depth = 0, votes = 0, estimated_qtime = 0, estimated_recall = 0\<rparr>"

text \<open>\<^verbatim>\<open>is_faster\<close>, the comparator of the two \<^verbatim>\<open>std::set\<close>s \<^verbatim>\<open>pars\<close> and \<^verbatim>\<open>opt_pars\<close>.\<close>

definition is_faster :: "Parameters \<Rightarrow> Parameters \<Rightarrow> bool" where
  "is_faster par1 par2 \<longleftrightarrow> estimated_qtime par1 < estimated_qtime par2"

text \<open>
  A \<^verbatim>\<open>std::set<Parameters, is_faster>\<close> is modelled by the list of its elements in
  container (iteration) order. \<^verbatim>\<open>set_insert\<close> is \<^verbatim>\<open>std::set::insert\<close>: the element goes
  to its place in the order, and is dropped when an equivalent element (neither faster
  than the other) is already there.
\<close>

fun set_insert :: "Parameters \<Rightarrow> Parameters list \<Rightarrow> Parameters list" where
  "set_insert p [] = [p]"
| "set_insert p (q # qs) =
     (if is_faster p q then p # q # qs
      else if is_faster q p then q # set_insert p qs
      else q # qs)"

text \<open>The invariant of such a set: strictly ascending under the comparator.\<close>

definition ordered_set :: "Parameters list \<Rightarrow> bool" where
  "ordered_set ps \<longleftrightarrow> sorted_wrt is_faster ps"

text \<open>
  \<^verbatim>\<open>Mrpt::get_optimal_parameters\<close>: the range-for over \<^verbatim>\<open>opt_pars\<close> returns at the first
  element whose estimated recall is above \<^verbatim>\<open>tr\<close>; falling out of the loop returns a
  default-constructed record.
\<close>

fun get_optimal_parameters_loop :: "real \<Rightarrow> Parameters list \<Rightarrow> Parameters" where
  "get_optimal_parameters_loop tr [] = Parameters_default"
| "get_optimal_parameters_loop tr (par # rest) =
     (if estimated_recall par > tr then par else get_optimal_parameters_loop tr rest)"

definition get_optimal_parameters :: "Parameters list \<Rightarrow> real \<Rightarrow> Parameters" where
  "get_optimal_parameters opt_pars target_recall =
     (let tr = target_recall - 0.0001 in get_optimal_parameters_loop tr opt_pars)"

text \<open>
  The end of \<^verbatim>\<open>Mrpt::fit_times\<close>, from the construction of \<^verbatim>\<open>pars\<close> on. The fitted time
  model \<^verbatim>\<open>get_query_time\<close>, the measured \<^verbatim>\<open>get_recall\<close> and the accumulator \<^verbatim>\<open>idx_sum\<close> come
  from wall-clock measurements and are parameters. \<^verbatim>\<open>trees_max\<close> and \<^verbatim>\<open>depth_max\<close> are the
  members \<^verbatim>\<open>n_trees\<close> and \<^verbatim>\<open>depth\<close> of the index at that point.
\<close>

definition fit_times_pars ::
  "(nat \<Rightarrow> nat \<Rightarrow> nat \<Rightarrow> real) \<Rightarrow> (nat \<Rightarrow> nat \<Rightarrow> nat \<Rightarrow> real) \<Rightarrow> nat \<Rightarrow> nat \<Rightarrow> nat \<Rightarrow> nat \<Rightarrow>
   Parameters list" where
  "fit_times_pars get_query_time get_recall depth_min depth_max votes_max trees_max =
     fold (\<lambda>d pars.
        fold (\<lambda>t pars.
           let votes_index = (if votes_max < t then votes_max else t) in
           fold (\<lambda>v pars.
              let qt = get_query_time t d v;
                  par = \<lparr>n_trees = t, depth = d, votes = v, estimated_qtime = qt,
                         estimated_recall = get_recall t d v\<rparr>
              in set_insert par pars)
             [1..<votes_index + 1] pars)
          [1..<trees_max + 1] pars)
       [depth_min..<depth_max + 1] []"

text \<open>
  \<^verbatim>\<open>pars.begin()->estimated_recall += idx_sum > 1.0 ? 0.0002 : 0.0001;\<close> On an empty set
  \<^verbatim>\<open>begin()\<close> is \<^verbatim>\<open>end()\<close> and may not be dereferenced.
\<close>

definition bump_first :: "real \<Rightarrow> Parameters list \<Rightarrow> Parameters list option" where
  "bump_first idx_sum pars =
     (case pars of
        [] \<Rightarrow> None
      | p # ps \<Rightarrow>
          Some (p\<lparr>estimated_recall :=
                    estimated_recall p + (if idx_sum > 1 then 0.0002 else 0.0001)\<rparr> # ps))"

text \<open>The loop that computes \<^verbatim>\<open>opt_pars\<close> from \<^verbatim>\<open>pars\<close>; the state is \<^verbatim>\<open>(opt_pars, best_recall)\<close>.\<close>

definition pareto_frontier :: "Parameters list \<Rightarrow> Parameters list" where
  "pareto_frontier pars =
     fst (fold (\<lambda>par (opt_pars, best_recall).
                  if estimated_recall par > best_recall
                  then (set_insert par opt_pars, estimated_recall par)
                  else (opt_pars, best_recall))
            pars ([], - 1))"

definition fit_times_frontier ::
  "(nat \<Rightarrow> nat \<Rightarrow> nat \<Rightarrow> real) \<Rightarrow> (nat \<Rightarrow> nat \<Rightarrow> nat \<Rightarrow> real) \<Rightarrow> real \<Rightarrow> nat \<Rightarrow> nat \<Rightarrow> nat \<Rightarrow> nat \<Rightarrow>
   (Parameters list \<times> Parameters list) option" where
  "fit_times_frontier get_query_time get_recall idx_sum depth_min depth_max votes_max trees_max =
     do {
       pars \<leftarrow> bump_first idx_sum
                (fit_times_pars get_query_time get_recall depth_min depth_max votes_max trees_max);
       Some (pars, pareto_frontier pars)
     }"

text \<open>
  The candidate records of \<^verbatim>\<open>fit_times\<close> in the order its three loops produce them, and the
  frontier in the words of the specification: scan all candidates in ascending estimated
  query time and keep a record only when its estimated recall strictly exceeds the best
  recall seen so far.
\<close>

definition fit_times_candidates ::
  "(nat \<Rightarrow> nat \<Rightarrow> nat \<Rightarrow> real) \<Rightarrow> (nat \<Rightarrow> nat \<Rightarrow> nat \<Rightarrow> real) \<Rightarrow> nat \<Rightarrow> nat \<Rightarrow> nat \<Rightarrow> nat \<Rightarrow>
   Parameters list" where
  "fit_times_candidates get_query_time get_recall depth_min depth_max votes_max trees_max =
     concat (map (\<lambda>d. concat (map (\<lambda>t. map (\<lambda>v.
                \<lparr>n_trees = t, depth = d, votes = v, estimated_qtime = get_query_time t d v,
                 estimated_recall = get_recall t d v\<rparr>)
              [1..<(if votes_max < t then votes_max else t) + 1])
            [1..<trees_max + 1]))
          [depth_min..<depth_max + 1])"

fun scan_accept :: "real option \<Rightarrow> Parameters list \<Rightarrow> Parameters list" where
  "scan_accept best [] = []"
| "scan_accept best (p # ps) =
     (if (case best of None \<Rightarrow> True | Some b \<Rightarrow> estimated_recall p > b)
      then p # scan_accept (Some (estimated_recall p)) ps
      else scan_accept best ps)"

definition spec_frontier :: "Parameters list \<Rightarrow> Parameters list" where
  "spec_frontier candidates = scan_accept None (sort_key estimated_qtime candidates)"

text \<open>A record with given tree count, query time and recall, for the examples.\<close>

definition ex_par :: "nat \<Rightarrow> real \<Rightarrow> real \<Rightarrow> Parameters" where
  "ex_par t qt rc =
     \<lparr>n_trees = t, depth = 1, votes = 1, estimated_qtime = qt, estimated_recall = rc\<rparr>"

section \<open>The index\<close>

text \<open>
  The members of \<^verbatim>\<open>class Mrpt\<close> that the modelled functions use. \<^verbatim>\<open>X\<close> is the data matrix
  behind the pointer (\<^verbatim>\<open>dim\<close> rows, \<^verbatim>\<open>n_samples\<close> columns); \<^verbatim>\<open>member_k\<close> is the member \<^verbatim>\<open>k\<close>.
\<close>

record Mrpt =
  X :: "nat \<Rightarrow> nat \<Rightarrow> real"
  split_points :: "nat \<Rightarrow> nat \<Rightarrow> real"
  tree_leaves :: "nat list list"
  dense_random_matrix :: "nat \<Rightarrow> nat \<Rightarrow> real"
  sparse_random_matrix :: "(nat \<times> nat \<times> real) list"
  leaf_first_indices_all :: "nat list list"
  leaf_first_indices :: "nat list"
  n_samples :: nat
  dim :: nat
  n_trees :: nat
  depth :: nat
  density :: real
  n_pool :: nat
  n_array :: nat
  votes :: nat
  member_k :: nat
  recall_level :: real
  optimal_parameters :: Parameters
  opt_pars :: "Parameters list"

text \<open>
  The constructor and the default member initialisers. \<^verbatim>\<open>k\<close> has no initialiser: its
  initial content \<^verbatim>\<open>k0\<close> is indeterminate. The empty matrices have no coefficient that
  could be read.
\<close>

definition Mrpt_new :: "(nat \<Rightarrow> nat \<Rightarrow> real) \<Rightarrow> nat \<Rightarrow> nat \<Rightarrow> nat \<Rightarrow> Mrpt" where
  "Mrpt_new X' rows cols k0 =
     \<lparr>X = X', split_points = (\<lambda>_ _. 0), tree_leaves = [],
      dense_random_matrix = (\<lambda>_ _. 0), sparse_random_matrix = [],
      leaf_first_indices_all = [], leaf_first_indices = [],
      n_samples = cols, dim = rows, n_trees = 0, depth = 0, density = 1,
      n_pool = 0, n_array = 0, votes = 0, member_k = k0, recall_level = - 1,
      optimal_parameters = Parameters_default, opt_pars = []\<rparr>"

text \<open>\<^verbatim>\<open>is_empty\<close>.\<close>

definition is_empty :: "Mrpt \<Rightarrow> bool" where
  "is_empty s \<longleftrightarrow> n_trees s = 0"

text \<open>The body of the loop over the trees in \<^verbatim>\<open>Mrpt::grow\<close>.\<close>

definition grow_tree ::
  "((nat \<Rightarrow> real) \<Rightarrow> nat \<Rightarrow> nat list \<Rightarrow> nat list) \<Rightarrow> nat \<Rightarrow> Mrpt \<Rightarrow> Mrpt option" where
  "grow_tree nth_element n_tree s =
     (let tree_projections =
            (if density s < 1
             then (\<lambda>level p. sparse_times (sparse_random_matrix s) (\<lambda>c. X s c p)
                                (n_tree * depth s + level))
             else (\<lambda>level p. dense_times (dense_random_matrix s) (dim s) (\<lambda>c. X s c p)
                                (n_tree * depth s + level)));
          indices = [0..<n_samples s]
      in do {
        (sp, indices') \<leftarrow> grow_subtree nth_element (depth s) tree_projections n_tree
                            (split_points s, indices) 0 (n_samples s) 0 0;
        Some (s\<lparr>split_points := sp, tree_leaves := (tree_leaves s)[n_tree := indices']\<rparr>)
      })"

text \<open>
  \<^verbatim>\<open>Mrpt::grow(n_trees_, depth_, density_, seed)\<close>. The seed selects the random draws, which
  are parameters here; \<^verbatim>\<open>uninit\<close> is the content of the freshly allocated \<^verbatim>\<open>split_points\<close>.
\<close>

definition grow ::
  "((nat \<Rightarrow> real) \<Rightarrow> nat \<Rightarrow> nat list \<Rightarrow> nat list) \<Rightarrow> (nat \<Rightarrow> nat \<Rightarrow> real) \<Rightarrow> (nat \<Rightarrow> nat \<Rightarrow> real) \<Rightarrow>
   (nat \<Rightarrow> nat \<Rightarrow> real) \<Rightarrow> Mrpt \<Rightarrow> nat \<Rightarrow> nat \<Rightarrow> real \<Rightarrow> Mrpt option" where
  "grow nth_element uni_draw normal_draw uninit s n_trees' depth' density' =
     (let s1 = s\<lparr>n_trees := n_trees', depth := depth', density := density',
                 n_pool := n_trees' * depth', n_array := 2 ^ (depth' + 1)\<rparr>;
          s2 = (if density s1 < 1
                then s1\<lparr>sparse_random_matrix :=
                          build_sparse_random_matrix uni_draw normal_draw (n_pool s1) (dim s1)
                            (density s1)\<rparr>
                else s1\<lparr>dense_random_matrix :=
                          build_dense_random_matrix normal_draw (n_pool s1) (dim s1)\<rparr>);
          s3 = s2\<lparr>split_points := uninit, tree_leaves := replicate (n_trees s2) []\<rparr>
      in do {
        all_indices \<leftarrow> count_first_leaf_indices_all (leaf_first_indices_all s3) (n_samples s3)
                         (depth s3);
        first_indices \<leftarrow> deref all_indices (depth s3);
        let s4 = s3\<lparr>leaf_first_indices_all := all_indices, leaf_first_indices := first_indices\<rparr>;
        fold_option (grow_tree nth_element) [0..<n_trees s4] s4
      })"

text \<open>
  The projection, routing and vote count of \<^verbatim>\<open>Mrpt::query\<close>: the result is \<^verbatim>\<open>(votes,
  elected, n_elected)\<close> when the vote loop ends.
\<close>

definition query_vote :: "Mrpt \<Rightarrow> (nat \<Rightarrow> real) \<Rightarrow> nat \<Rightarrow> (nat list \<times> nat list \<times> nat) option" where
  "query_vote s q votes_required =
     (let projected_query =
            (if density s < 1 then sparse_times (sparse_random_matrix s) q
             else dense_times (dense_random_matrix s) (dim s) q);
          found_leaves =
            map (\<lambda>n_tree. route (split_points s) projected_query (depth s) n_tree + 1
                            - 2 ^ depth s)
              [0..<n_trees s]
      in count_votes (n_samples s) (n_trees s) (depth s) votes_required (leaf_first_indices s)
           found_leaves (tree_leaves s))"

text \<open>
  \<^verbatim>\<open>Mrpt::query(q, k, votes_required, out, ...)\<close>: the result is the content of \<^verbatim>\<open>out\<close>, of
  \<^verbatim>\<open>out_distances\<close> and the candidate set size. The three timing outputs are not modelled.
\<close>

definition query ::
  "((nat \<Rightarrow> real) \<Rightarrow> nat \<Rightarrow> nat list \<Rightarrow> nat list) \<Rightarrow> Mrpt \<Rightarrow> (nat \<Rightarrow> real) \<Rightarrow> nat \<Rightarrow> nat \<Rightarrow>
   (int list \<times> real list \<times> nat) option" where
  "query partial_sort s q k votes_required =
     do {
       (votes', elected, n_elected) \<leftarrow> query_vote s q votes_required;
       (out, out_distances) \<leftarrow>
          exact_knn partial_sort (X s) (dim s) (n_samples s) q k elected n_elected;
       Some (out, out_distances, n_elected)
     }"

text \<open>
  \<^verbatim>\<open>Mrpt::query(q, out, ...)\<close>, the overload that uses the stored \<^verbatim>\<open>k\<close> and \<^verbatim>\<open>votes\<close>: with a
  negative \<^verbatim>\<open>recall_level\<close> it returns without writing anything (\<^term>\<open>Some None\<close>).
\<close>

definition query_stored ::
  "((nat \<Rightarrow> real) \<Rightarrow> nat \<Rightarrow> nat list \<Rightarrow> nat list) \<Rightarrow> Mrpt \<Rightarrow> (nat \<Rightarrow> real) \<Rightarrow>
   (int list \<times> real list \<times> nat) option option" where
  "query_stored partial_sort s q =
     (if recall_level s < 0 then Some None
      else map_option Some (query partial_sort s q (member_k s) (votes s)))"

text \<open>
  \<^verbatim>\<open>Mrpt::save\<close>: the items written, in order. A failing \<^verbatim>\<open>fopen\<close> is not modelled. For a
  tree without points, \<^verbatim>\<open>fwrite(&tree_leaves[i][0], sizeof(int), 0, fd)\<close> writes nothing.
\<close>

definition save :: "Mrpt \<Rightarrow> item list option" where
  "save s =
     do {
       leaves \<leftarrow> fold_option
                   (\<lambda>i fd. do {
                      leaf \<leftarrow> deref (tree_leaves s) i;
                      Some (fd @ Int32 (int (length leaf)) # map (\<lambda>p. Int32 (int p)) leaf)
                    })
                   [0..<n_trees s] [];
       Some ([Int32 (int (n_trees s)), Int32 (int (depth s)), Float32 (density s)]
             @ map Float32
                 (concat (map (\<lambda>t. map (\<lambda>i. split_points s i t) [0..<n_array s]) [0..<n_trees s]))
             @ leaves
             @ (if density s < 1
                then Int32 (int (length (sparse_random_matrix s)))
                       # concat (map (\<lambda>(row, col, val). [Int32 (int row), Int32 (int col), Float32 val])
                                   (sparse_random_matrix s))
                else map Float32
                       (concat (map (\<lambda>r. map (\<lambda>c. dense_random_matrix s r c) [0..<dim s])
                                  [0..<n_pool s]))))
     }"

text \<open>
  \<^verbatim>\<open>Mrpt::load\<close>. A negative count or index in the file is outside the model
  (\<^term>\<open>None\<close>), like a short file.
\<close>

definition load :: "item list \<Rightarrow> Mrpt \<Rightarrow> Mrpt option" where
  "load fd0 s =
     do {
       (n_trees', fd1) \<leftarrow> read_nat fd0;
       (depth', fd2) \<leftarrow> read_nat fd1;
       (density', fd3) \<leftarrow> read_float fd2;
       let s1 = s\<lparr>n_trees := n_trees', depth := depth', density := density'\<rparr>;
       let s2 = s1\<lparr>n_pool := n_trees s1 * depth s1, n_array := 2 ^ (depth s1 + 1)\<rparr>;
       all_indices \<leftarrow> count_first_leaf_indices_all (leaf_first_indices_all s2) (n_samples s2)
                        (depth s2);
       first_indices \<leftarrow> deref all_indices (depth s2);
       let s3 = s2\<lparr>leaf_first_indices_all := all_indices, leaf_first_indices := first_indices\<rparr>;
       (sp, fd4) \<leftarrow> read_floats (n_array s3 * n_trees s3) fd3;
       let s4 = s3\<lparr>split_points := (\<lambda>i t. sp ! (t * n_array s3 + i))\<rparr>;
       (leaves, fd5) \<leftarrow> read_leaves (n_trees s4) fd4;
       let s5 = s4\<lparr>tree_leaves := leaves\<rparr>;
       if density s5 < 1 then do {
         (non_zeros, fd6) \<leftarrow> read_nat fd5;
         (triplets, fd7) \<leftarrow> read_triplets non_zeros fd6;
         Some (s5\<lparr>sparse_random_matrix := setFromTriplets triplets\<rparr>)
       } else do {
         (dense, fd6) \<leftarrow> read_floats (n_pool s5 * dim s5) fd5;
         Some (s5\<lparr>dense_random_matrix := (\<lambda>r c. dense ! (r * dim s5 + c))\<rparr>)
       }
     }"

text \<open>
  \<^verbatim>\<open>Mrpt::delete_extra_trees\<close>. \<^verbatim>\<open>tree_leaves.resize\<close> keeps the first vectors;
  \<^verbatim>\<open>conservativeResize\<close> keeps the coefficients of the block that remains.
\<close>

definition delete_extra_trees :: "Mrpt \<Rightarrow> real \<Rightarrow> Mrpt option" where
  "delete_extra_trees s target_recall =
     (let s1 = s\<lparr>recall_level := target_recall\<rparr>;
          s2 = s1\<lparr>optimal_parameters := get_optimal_parameters (opt_pars s1) target_recall\<rparr>
      in if Parameters.n_trees (optimal_parameters s2) = 0 then Some s2
         else
           let depth_max = depth s2;
               s3 = s2\<lparr>n_trees := Parameters.n_trees (optimal_parameters s2),
                       depth := Parameters.depth (optimal_parameters s2),
                       votes := Parameters.votes (optimal_parameters s2)\<rparr>;
               s4 = s3\<lparr>n_pool := depth s3 * n_trees s3, n_array := 2 ^ (depth s3 + 1)\<rparr>;
               s5 = s4\<lparr>tree_leaves := take (n_trees s4) (tree_leaves s4)
                                         @ replicate (n_trees s4 - length (tree_leaves s4)) []\<rparr>
           in do {
             first_indices \<leftarrow> deref (leaf_first_indices_all s5) (depth s5);
             let s6 = s5\<lparr>leaf_first_indices := first_indices\<rparr>;
             Some (if density s6 < 1
                   then s6\<lparr>sparse_random_matrix :=
                             fold (\<lambda>n_tree. copy_rows_sparse (sparse_random_matrix s6)
                                               (n_tree * depth_max) (n_tree * depth s6) (depth s6))
                               [0..<n_trees s6] []\<rparr>
                   else s6\<lparr>dense_random_matrix :=
                             fold (\<lambda>n_tree. copy_rows_dense (dense_random_matrix s6)
                                               (n_tree * depth_max) (n_tree * depth s6) (depth s6))
                               [0..<n_trees s6] (\<lambda>_ _. 0)\<rparr>)
           })"

text \<open>\<^verbatim>\<open>Mrpt::subset_trees\<close>: the result is the new state of \<^verbatim>\<open>index2\<close>.\<close>

definition subset_trees :: "Mrpt \<Rightarrow> real \<Rightarrow> Mrpt \<Rightarrow> Mrpt option" where
  "subset_trees s target_recall index2 =
     (let i1 = index2\<lparr>recall_level := target_recall\<rparr>;
          i2 = i1\<lparr>optimal_parameters := get_optimal_parameters (opt_pars s) target_recall\<rparr>
      in if Parameters.n_trees (optimal_parameters i2) = 0 then Some i2
         else
           let depth_max = depth s;
               i3 = i2\<lparr>n_trees := Parameters.n_trees (optimal_parameters i2),
                       depth := Parameters.depth (optimal_parameters i2),
                       votes := Parameters.votes (optimal_parameters i2)\<rparr>;
               i4 = i3\<lparr>n_pool := depth i3 * n_trees i3, n_array := 2 ^ (depth i3 + 1)\<rparr>
           in if length (tree_leaves s) < n_trees i4 then None
              else
                let i5 = i4\<lparr>tree_leaves := take (n_trees i4) (tree_leaves s),
                            leaf_first_indices_all := leaf_first_indices_all s,
                            density := density s, member_k := member_k s\<rparr>;
                    i6 = i5\<lparr>split_points := split_points s\<rparr>
                in do {
                  first_indices \<leftarrow> deref (leaf_first_indices_all s) (depth i6);
                  let i7 = i6\<lparr>leaf_first_indices := first_indices\<rparr>;
                  Some (if density i7 < 1
                        then i7\<lparr>sparse_random_matrix :=
                                  fold (\<lambda>n_tree. copy_rows_sparse (sparse_random_matrix s)
                                                    (n_tree * depth_max) (n_tree * depth i7) (depth i7))
                                    [0..<n_trees i7] []\<rparr>
                        else i7\<lparr>dense_random_matrix :=
                                  fold (\<lambda>n_tree. copy_rows_dense (dense_random_matrix s)
                                                    (n_tree * depth_max) (n_tree * depth i7) (depth i7))
                                    [0..<n_trees i7] (\<lambda>_ _. 0)\<rparr>)
                })"

section \<open>Notions used to state the properties\<close>

text \<open>
  A grown forest, as far as the query path depends on it: one index vector per tree, each a
  permutation of \<^verbatim>\<open>[0, n_samples)\<close>, and \<^verbatim>\<open>leaf_first_indices\<close> the offsets that
  \<^verbatim>\<open>count_first_leaf_indices\<close> computes for the number of samples and the depth.
\<close>

definition grown :: "Mrpt \<Rightarrow> bool" where
  "grown s \<longleftrightarrow>
     length (tree_leaves s) = n_trees s \<and>
     (\<forall>t<n_trees s. mset (tree_leaves s ! t) = mset [0..<n_samples s]) \<and>
     count_first_leaf_indices (n_samples s) (depth s) = Some (leaf_first_indices s)"

text \<open>
  The leaf that \<^verbatim>\<open>query\<close> routes \<open>q\<close> to in tree \<open>t\<close> (the value of \<^verbatim>\<open>found_leaves[t]\<close>), the
  points of that leaf, and all votes of a query in the order they are cast.
\<close>

definition found_leaf :: "Mrpt \<Rightarrow> (nat \<Rightarrow> real) \<Rightarrow> nat \<Rightarrow> nat" where
  "found_leaf s q t =
     route (split_points s)
       (if density s < 1 then sparse_times (sparse_random_matrix s) q
        else dense_times (dense_random_matrix s) (dim s) q)
       (depth s) t + 1 - 2 ^ depth s"

definition routed_leaf :: "Mrpt \<Rightarrow> (nat \<Rightarrow> real) \<Rightarrow> nat \<Rightarrow> nat list" where
  "routed_leaf s q t =
     slice (tree_leaves s ! t) (leaf_first_indices s ! found_leaf s q t)
       (leaf_first_indices s ! (found_leaf s q t + 1))"

definition vote_sequence :: "Mrpt \<Rightarrow> (nat \<Rightarrow> real) \<Rightarrow> nat list" where
  "vote_sequence s q = concat (map (routed_leaf s q) [0..<n_trees s])"

text \<open>
  The points of a sequence of votes whose running count reaches \<open>v\<close>, in the order in which
  they reach it: the vote at position \<open>i\<close> counts when it is the \<open>v\<close>-th for its point.
\<close>

definition crossing_order :: "nat \<Rightarrow> nat list \<Rightarrow> nat list" where
  "crossing_order v votes_cast =
     map (\<lambda>i. votes_cast ! i)
       (filter (\<lambda>i. count_list (take (Suc i) votes_cast) (votes_cast ! i) = v)
          [0..<length votes_cast])"

text \<open>
  Node \<open>j\<close> of the implicit binary tree (root 0, children \<open>2i + 1\<close> and \<open>2i + 2\<close>) lies in the
  subtree rooted at node \<open>i\<close>: \<open>m\<close> levels below \<open>i\<close> the subtree holds the nodes \<open>j\<close> with
  \<open>2 ^ m * (i + 1) \<le> j + 1 < 2 ^ m * (i + 2)\<close>.
\<close>

definition in_subtree :: "nat \<Rightarrow> nat \<Rightarrow> bool" where
  "in_subtree i j \<longleftrightarrow> (\<exists>m\<le>j. 2 ^ m * (i + 1) \<le> j + 1 \<and> j + 1 < 2 ^ m * (i + 2))"

text \<open>
  The projections that \<^verbatim>\<open>grow\<close> computes for tree \<open>t\<close>: row \<open>t * depth + level\<close> of the product
  of the projection matrix with the data matrix.
\<close>

definition tree_projections_of :: "Mrpt \<Rightarrow> nat \<Rightarrow> nat \<Rightarrow> nat \<Rightarrow> real" where
  "tree_projections_of s t =
     (if density s < 1
      then (\<lambda>level p. sparse_times (sparse_random_matrix s) (\<lambda>c. X s c p) (t * depth s + level))
      else (\<lambda>level p. dense_times (dense_random_matrix s) (dim s) (\<lambda>c. X s c p)
                         (t * depth s + level)))"

text \<open>
  The median rule at the call \<open>(lo, hi, level, i)\<close> of \<^verbatim>\<open>grow_subtree\<close> for tree \<open>n_tree\<close>, read off
  the finished tree (split-point matrix \<open>sp\<close>). The node has \<open>m = hi - lo \<ge> 1\<close> points; its left child holds the points
  at the positions \<open>lo ..< mid\<close> of the index vector and its right child those at
  \<open>mid ..< hi\<close>, where \<open>mid = hi - m div 2\<close>; every projection on the left is at most every
  projection on the right; the split value is, for odd \<open>m\<close>, the \<open>\<lceil>m/2\<rceil>\<close>-th smallest
  projection of the node, which is the largest on the left, and for even \<open>m\<close> the mean of the
  largest projection on the left and the smallest on the right; and no projection on the
  left exceeds the split value.
\<close>

definition median_split ::
  "(nat \<Rightarrow> nat \<Rightarrow> real) \<Rightarrow> nat \<Rightarrow> (nat \<Rightarrow> nat \<Rightarrow> real) \<Rightarrow> nat list \<Rightarrow> nat \<times> nat \<times> nat \<times> nat \<Rightarrow> bool"
  where
  "median_split tree_projections n_tree sp indices c =
     (case c of (lo, hi, level, i) \<Rightarrow>
        let m = hi - lo;
            mid = hi - m div 2;
            key = tree_projections level;
            s = sp i n_tree;
            left = slice indices lo mid;
            right = slice indices mid hi
        in 1 \<le> m
           \<and> length left = (m + 1) div 2 \<and> length right = m div 2
           \<and> (\<forall>p\<in>set left. \<forall>r\<in>set right. key p \<le> key r)
           \<and> (odd m \<longrightarrow> s = sort (map key (slice indices lo hi)) ! ((m + 1) div 2 - 1)
                        \<and> s = Max (key ` set left))
           \<and> (even m \<longrightarrow> s = (Max (key ` set left) + Min (key ` set right)) / 2)
           \<and> (\<forall>p\<in>set left. key p \<le> s))"

text \<open>
  The calls of \<^verbatim>\<open>grow_subtree\<close> for a tree of depth \<open>d\<close> over \<open>n\<close> points: those at internal
  nodes, and those at the leaves.
\<close>

definition internal_calls :: "nat \<Rightarrow> nat \<Rightarrow> (nat \<times> nat \<times> nat \<times> nat) list" where
  "internal_calls d n = filter (\<lambda>(lo, hi, level, i). level < d) (grow_calls d 0 n 0 0)"



text \<open>
  The stored entries of a compressed row-major sparse matrix: by rows, within a row by
  columns, no position twice.
\<close>

definition row_major :: "(nat \<times> nat \<times> real) list \<Rightarrow> bool" where
  "row_major ts \<longleftrightarrow>
     sorted_wrt (\<lambda>a b. fst a < fst b \<or> (fst a = fst b \<and> fst (snd a) < fst (snd b))) ts"

section \<open>Concrete data for the examples\<close>

definition ex_X :: "nat \<Rightarrow> nat \<Rightarrow> real" where
  "ex_X c p = real p"

definition ex_q :: "nat \<Rightarrow> real" where
  "ex_q c = 2"

definition ex_forest :: Mrpt where
  "ex_forest =
     (Mrpt_new ex_X 1 4 0)
       \<lparr>split_points := (\<lambda>i t. 3 / 2), tree_leaves := [[0, 1, 2, 3], [1, 0, 3, 2]],
        dense_random_matrix := (\<lambda>r c. 1),
        leaf_first_indices_all := [[0, 4], [0, 2, 4]], leaf_first_indices := [0, 2, 4],
        n_trees := 2, depth := 1, n_pool := 2, n_array := 4\<rparr>"

definition ex_recall :: "nat \<Rightarrow> nat \<Rightarrow> nat \<Rightarrow> real" where
  "ex_recall t d v = (if t = 1 then 1 / 2 else 50005 / 100000)"

definition ex_draw :: "nat \<Rightarrow> nat \<Rightarrow> real" where
  "ex_draw r c = 1"

section \<open>Looking up the optimal parameters\<close>

lemma get_optimal_parameters_loop_split:
  "(\<exists>ps1 p ps2. ps = ps1 @ p # ps2 \<and> (\<forall>q\<in>set ps1. \<not> estimated_recall q > tr)
        \<and> estimated_recall p > tr \<and> get_optimal_parameters_loop tr ps = p)
   \<or> ((\<forall>q\<in>set ps. \<not> estimated_recall q > tr)
        \<and> get_optimal_parameters_loop tr ps = Parameters_default)"
proof (induction ps)
  case Nil
  then show ?case by simp
next
  case (Cons a ps)
  show ?case
  proof (cases "estimated_recall a > tr")
    case True
    have "a # ps = [] @ a # ps" by simp
    moreover have "get_optimal_parameters_loop tr (a # ps) = a" using True by simp
    moreover have "\<forall>q\<in>set ([] :: Parameters list). \<not> estimated_recall q > tr" by simp
    ultimately show ?thesis using True by blast
  next
    case False
    from Cons.IH show ?thesis
    proof
      assume "\<exists>ps1 p ps2. ps = ps1 @ p # ps2 \<and> (\<forall>q\<in>set ps1. \<not> estimated_recall q > tr)
        \<and> estimated_recall p > tr \<and> get_optimal_parameters_loop tr ps = p"
      then obtain ps1 p ps2 where h: "ps = ps1 @ p # ps2"
        "\<forall>q\<in>set ps1. \<not> estimated_recall q > tr"
        "estimated_recall p > tr" "get_optimal_parameters_loop tr ps = p" by blast
      have "a # ps = (a # ps1) @ p # ps2" using h(1) by simp
      moreover have "\<forall>q\<in>set (a # ps1). \<not> estimated_recall q > tr" using h(2) False by simp
      moreover have "get_optimal_parameters_loop tr (a # ps) = p" using False h(4) by simp
      ultimately show ?thesis using h(3) by blast
    next
      assume "(\<forall>q\<in>set ps. \<not> estimated_recall q > tr)
        \<and> get_optimal_parameters_loop tr ps = Parameters_default"
      then show ?thesis using False by simp
    qed
  qed
qed

text \<open>
  Claim C6. For every target recall, \<^verbatim>\<open>get_optimal_parameters\<close> returns the first element of
  the ordered set \<^verbatim>\<open>opt_pars\<close> (here \<open>ps\<close>, in container order, which is ascending estimated
  query time) whose estimated recall strictly exceeds \<open>target_recall - 0.0001\<close>: no element
  before it exceeds the threshold, and every other element that does is slower. If no element
  exceeds the threshold, the result is the default-constructed record, whose \<^verbatim>\<open>n_trees\<close> is 0.
\<close>

theorem get_optimal_parameters_first:
  fixes target_recall :: real
  assumes "ordered_set ps"
  defines "tr \<equiv> target_recall - 0.0001"
  defines "r \<equiv> get_optimal_parameters ps target_recall"
  shows "(\<exists>ps1 p ps2. ps = ps1 @ p # ps2
              \<and> (\<forall>q\<in>set ps1. \<not> estimated_recall q > tr)
              \<and> estimated_recall p > tr \<and> r = p
              \<and> (\<forall>q\<in>set ps. estimated_recall q > tr \<longrightarrow> q \<noteq> p
                    \<longrightarrow> estimated_qtime p < estimated_qtime q))
         \<or> ((\<forall>q\<in>set ps. \<not> estimated_recall q > tr) \<and> r = Parameters_default
              \<and> Parameters.n_trees r = 0)"
proof -
  have r: "r = get_optimal_parameters_loop tr ps"
    by (simp add: r_def tr_def get_optimal_parameters_def)
  from get_optimal_parameters_loop_split[of ps tr] show ?thesis
  proof
    assume "\<exists>ps1 p ps2. ps = ps1 @ p # ps2 \<and> (\<forall>q\<in>set ps1. \<not> estimated_recall q > tr)
        \<and> estimated_recall p > tr \<and> get_optimal_parameters_loop tr ps = p"
    then obtain ps1 p ps2 where h: "ps = ps1 @ p # ps2"
        "\<forall>q\<in>set ps1. \<not> estimated_recall q > tr"
        "estimated_recall p > tr" "get_optimal_parameters_loop tr ps = p" by blast
    have "\<forall>q\<in>set ps2. estimated_qtime p < estimated_qtime q"
      using assms(1) h(1) by (auto simp: ordered_set_def sorted_wrt_append is_faster_def)
    then have "\<forall>q\<in>set ps. estimated_recall q > tr \<longrightarrow> q \<noteq> p
                 \<longrightarrow> estimated_qtime p < estimated_qtime q"
      using h(1,2) by auto
    with h r show ?thesis by blast
  next
    assume "(\<forall>q\<in>set ps. \<not> estimated_recall q > tr)
        \<and> get_optimal_parameters_loop tr ps = Parameters_default"
    then show ?thesis using r by (simp add: Parameters_default_def)
  qed
qed

theorem get_optimal_parameters_first_witness:
  "ordered_set [ex_par 1 1 0.5, ex_par 2 2 0.8, ex_par 3 3 0.95]
   \<and> get_optimal_parameters [ex_par 1 1 0.5, ex_par 2 2 0.8, ex_par 3 3 0.95] 0.7 = ex_par 2 2 0.8
   \<and> get_optimal_parameters [ex_par 1 1 0.5, ex_par 2 2 0.8, ex_par 3 3 0.95] 0.99
       = Parameters_default"
proof -
  let ?ps = "[ex_par 1 1 0.5, ex_par 2 2 0.8, ex_par 3 3 0.95]"
  have o: "ordered_set ?ps"
    by (simp add: ordered_set_def is_faster_def ex_par_def)
  have a: "get_optimal_parameters ?ps 0.7 = ex_par 2 2 0.8"
    using get_optimal_parameters_first[OF o, of "0.7"]
    by (simp add: get_optimal_parameters_def ex_par_def)
  have b: "get_optimal_parameters ?ps 0.99 = Parameters_default"
    using get_optimal_parameters_first[OF o, of "0.99"]
    by (simp add: get_optimal_parameters_def ex_par_def)
  from o a b show ?thesis by blast
qed

section \<open>Exact nearest neighbours among the candidates\<close>

lemma minCoeff_fold:
  fixes ds :: "real list"
  shows "1 \<le> n \<Longrightarrow> n \<le> length ds \<Longrightarrow>
   fold (\<lambda>p smallest. if ds ! p < ds ! smallest then p else smallest) [1..<n] 0 < n
   \<and> (\<forall>i<n. ds ! (fold (\<lambda>p smallest. if ds ! p < ds ! smallest then p else smallest) [1..<n] 0) \<le> ds ! i)"
proof (induction n)
  case 0
  then show ?case by simp
next
  case (Suc n)
  show ?case
  proof (cases "n = 0")
    case True
    then show ?thesis by simp
  next
    case False
    then have n1: "1 \<le> n" by simp
    have nl: "n \<le> length ds" using Suc.prems by simp
    let ?f = "\<lambda>p smallest. if ds ! p < ds ! smallest then p else smallest"
    let ?s = "fold ?f [1..<n] 0"
    from Suc.IH[OF n1 nl] have s: "?s < n" and m: "\<forall>i<n. ds ! ?s \<le> ds ! i" by auto
    have up: "[1..<Suc n] = [1..<n] @ [n]" using n1 by simp
    have step: "fold ?f [1..<Suc n] 0 = ?f n ?s" unfolding up by simp
    show ?thesis
    proof (cases "ds ! n < ds ! ?s")
      case True
      then have e: "fold ?f [1..<Suc n] 0 = n" using step by simp
      have "\<forall>i<Suc n. ds ! n \<le> ds ! i"
      proof (intro allI impI)
        fix i assume "i < Suc n"
        then consider "i < n" | "i = n" by linarith
        then show "ds ! n \<le> ds ! i"
        proof cases
          case 1 then show ?thesis using m True by force
        next
          case 2 then show ?thesis by simp
        qed
      qed
      then show ?thesis using e by simp
    next
      case False
      then have e: "fold ?f [1..<Suc n] 0 = ?s" using step by simp
      have "\<forall>i<Suc n. ds ! ?s \<le> ds ! i"
      proof (intro allI impI)
        fix i assume "i < Suc n"
        then consider "i < n" | "i = n" by linarith
        then show "ds ! ?s \<le> ds ! i"
        proof cases
          case 1 then show ?thesis using m by simp
        next
          case 2 then show ?thesis using False by simp
        qed
      qed
      then show ?thesis using e s by simp
    qed
  qed
qed

lemma minCoeff_least:
  assumes "ds \<noteq> []"
  shows "minCoeff ds < length ds" and "\<And>i. i < length ds \<Longrightarrow> ds ! minCoeff ds \<le> ds ! i"
proof -
  have "1 \<le> length ds" using assms by (cases ds) auto
  from minCoeff_fold[OF this order_refl]
  show "minCoeff ds < length ds" and "\<And>i. i < length ds \<Longrightarrow> ds ! minCoeff ds \<le> ds ! i"
    by (auto simp: minCoeff_def)
qed

lemma sort_append_sorted_le:
  fixes A B :: "real list"
  assumes "sorted A" "\<forall>a\<in>set A. \<forall>b\<in>set B. a \<le> b"
  shows "sort (A @ B) = A @ sort B"
proof (rule properties_for_sort)
  show "mset (A @ sort B) = mset (A @ B)" by simp
  show "sorted (A @ sort B)" using assms by (simp add: sorted_append)
qed

lemma take_sort_least:
  fixes v :: real
  assumes "v \<in> set xs" "\<forall>x\<in>set xs. v \<le> x"
  shows "take 1 (sort xs) = [v]"
proof -
  obtain ys where ys: "mset xs = mset (v # ys)"
    using assms(1) by (metis insert_DiffM mset.simps(2) set_mset_mset ex_mset)
  have "\<forall>b\<in>set ys. v \<le> b"
  proof
    fix b assume "b \<in> set ys"
    then have "b \<in># mset (v # ys)" by simp
    then have "b \<in> set xs" using ys by (metis set_mset_mset)
    then show "v \<le> b" using assms(2) by simp
  qed
  then have "sort ([v] @ ys) = [v] @ sort ys"
    by (intro sort_append_sorted_le) auto
  moreover have "sort xs = sort (v # ys)"
    using ys by (metis properties_for_sort sorted_sort mset_sort)
  ultimately show ?thesis by simp
qed

lemma map_upt_nth_take:
  "m \<le> length xs \<Longrightarrow> map (\<lambda>i. f (xs ! i)) [0..<m] = map f (take m xs)"
  by (rule nth_equalityI) auto

lemma partial_sort_perm_upt:
  fixes key :: "nat \<Rightarrow> real"
  assumes "partial_sort_spec psort" "r \<le> m"
  defines "idx \<equiv> psort key r [0..<m]"
  shows "length idx = m" "distinct idx" "set idx = {..<m}"
        "sorted (map key (take r idx))"
        "\<forall>a\<in>set (take r idx). \<forall>b\<in>set (drop r idx). key a \<le> key b"
proof -
  have rl: "r \<le> length [0..<m]" using assms(2) by simp
  from assms(1)[unfolded partial_sort_spec_def, rule_format, OF rl, of key]
  have ms: "mset idx = mset [0..<m]"
    and so: "sorted (map key (take r idx))"
    and le: "\<forall>a\<in>set (take r idx). \<forall>b\<in>set (drop r idx). key a \<le> key b"
    unfolding idx_def by auto
  show "length idx = m" using ms by (metis length_upt mset_eq_length minus_nat.diff_0)
  show "distinct idx" using ms by (metis distinct_upt mset_eq_imp_distinct_iff)
  show "set idx = {..<m}" using ms by (metis atLeast_upt mset_eq_setD)
  show "sorted (map key (take r idx))" by (rule so)
  show "\<forall>a\<in>set (take r idx). \<forall>b\<in>set (drop r idx). key a \<le> key b" by (rule le)
qed

text \<open>
  Claim C4. For every call of \<^verbatim>\<open>exact_knn\<close> with \<open>kk \<ge> 1\<close> and \<open>m\<close> elected candidates (the
  first \<open>m\<close> entries of \<open>cands\<close>, all of them columns of the data matrix), with \<open>r = min kk m\<close>:
  the call returns; the first \<open>r\<close> output slots hold the candidates at \<open>r\<close> distinct
  positions \<open>js\<close> of the candidate list; their squared distances to the query are exactly the
  \<open>r\<close> smallest squared distances of all candidates, in non-decreasing order; the first \<open>r\<close>
  distance slots hold the square roots of these squared distances and are non-decreasing;
  every slot from \<open>r\<close> up to \<open>kk\<close> (all of them when \<open>m = 0\<close>) holds the sentinel \<open>-1\<close>.
  \<^verbatim>\<open>std::partial_sort\<close> is any function meeting its postcondition.
\<close>

theorem exact_knn_sorted_padded:
  fixes q :: "nat \<Rightarrow> real" and data :: "nat \<Rightarrow> nat \<Rightarrow> real" and dm :: nat
  assumes ps: "partial_sort_spec psort" and k1: "1 \<le> kk" and ml: "m \<le> length cands"
      and inr: "\<forall>p\<in>set (take m cands). p < n"
  defines "r \<equiv> min kk m"
  defines "sqd \<equiv> \<lambda>p. squared_distance data dm p q"
  shows "\<exists>out ds js. exact_knn psort data dm n q kk cands m = Some (out, ds)
      \<and> length out = kk \<and> length ds = kk
      \<and> length js = r \<and> distinct js \<and> set js \<subseteq> {..<m}
      \<and> take r out = map (\<lambda>j. int (cands ! j)) js
      \<and> map (\<lambda>j. sqd (cands ! j)) js = take r (sort (map sqd (take m cands)))
      \<and> take r ds = map (\<lambda>j. sqrt (sqd (cands ! j))) js
      \<and> sorted (take r ds)
      \<and> (\<forall>i. r \<le> i \<and> i < kk \<longrightarrow> out ! i = - 1 \<and> ds ! i = - 1)"
proof (cases "m = 0")
  case True
  then have "exact_knn psort data dm n q kk cands m = Some (replicate kk (- 1), replicate kk (- 1))"
    by (simp add: exact_knn_def)
  moreover have "r = 0" using True by (simp add: r_def)
  ultimately show ?thesis by simp
next
  case False
  define distances where "distances = map (\<lambda>i. sqd (cands ! i)) [0..<m]"
  have dl: "length distances = m" by (simp add: distances_def)
  have dn: "\<And>j. j < m \<Longrightarrow> distances ! j = sqd (cands ! j)" by (simp add: distances_def)
  have dt: "distances = map sqd (take m cands)"
    unfolding distances_def using ml by (rule map_upt_nth_take)
  have guard: "\<not> (length cands < m \<or> (\<exists>p\<in>set (take m cands). n \<le> p))"
    using ml inr by auto
  show ?thesis
  proof (cases "kk = 1")
    case True
    define index where "index = minCoeff distances"
    have ne: "distances \<noteq> []" using dl False by auto
    have il: "index < m" using minCoeff_least(1)[OF ne] dl by (simp add: index_def)
    have imin: "\<forall>x\<in>set distances. distances ! index \<le> x"
      using minCoeff_least(2)[OF ne] by (auto simp: index_def in_set_conv_nth)
    have iin: "distances ! index \<in> set distances" using il dl by simp
    have e: "exact_knn psort data dm n q kk cands m
               = Some ([int (cands ! index)], [sqrt (distances ! index)])"
      using False True guard
      by (simp add: exact_knn_def Let_def index_def distances_def sqd_def)
    have r1: "r = 1" using True False by (simp add: r_def)
    have "take 1 (sort distances) = [distances ! index]"
      using take_sort_least[OF iin imin] .
    then have srt: "map (\<lambda>j. sqd (cands ! j)) [index] = take r (sort (map sqd (take m cands)))"
      using dn[OF il] r1 dt by simp
    show ?thesis
      apply (rule exI[of _ "[int (cands ! index)]"])
      apply (rule exI[of _ "[sqrt (distances ! index)]"])
      apply (rule exI[of _ "[index]"])
      using e True r1 il srt dn[OF il] by simp
  next
    case k2: False
    define key where "key = (\<lambda>i. distances ! i)"
    define idx where "idx = psort key r [0..<m]"
    have rm: "r \<le> m" by (simp add: r_def)
    note pp = partial_sort_perm_upt[OF ps rm, of key, folded idx_def]
    have nts: "(if m > kk then kk else m) = r" by (simp add: r_def min_def)
    define out where "out = map (\<lambda>i. if i < m then int (cands ! (idx ! i)) else - 1) [0..<kk]"
    define ds where "ds = map (\<lambda>i. if i < m then sqrt (distances ! (idx ! i)) else - 1) [0..<kk]"
    have e: "exact_knn psort data dm n q kk cands m = Some (out, ds)"
      using False k2 guard nts
      by (simp add: exact_knn_def Let_def out_def ds_def idx_def key_def distances_def sqd_def)
    define js where "js = take r idx"
    have jl: "length js = r" using pp(1) rm by (simp add: js_def)
    have jd: "distinct js" using pp(2) by (simp add: js_def)
    have jsub: "set js \<subseteq> {..<m}" using pp(3) by (metis js_def set_take_subset)
    have rk: "r \<le> kk" by (simp add: r_def)
    have jn: "\<And>i. i < r \<Longrightarrow> js ! i = idx ! i" by (simp add: js_def)
    have jm: "\<And>i. i < r \<Longrightarrow> idx ! i < m"
      using pp(1,3) rm by (metis lessThan_iff nth_mem order_less_le_trans)
    have to: "take r out = map (\<lambda>j. int (cands ! j)) js"
    proof (rule nth_equalityI)
      show "length (take r out) = length (map (\<lambda>j. int (cands ! j)) js)"
        using jl rk by (simp add: out_def)
    next
      fix i assume "i < length (take r out)"
      then have ir: "i < r" by simp
      then have "i < kk" "i < m" using rk rm by auto
      then show "take r out ! i = map (\<lambda>j. int (cands ! j)) js ! i"
        using ir jl jn by (simp add: out_def)
    qed
    have td: "take r ds = map (\<lambda>j. sqrt (sqd (cands ! j))) js"
    proof (rule nth_equalityI)
      show "length (take r ds) = length (map (\<lambda>j. sqrt (sqd (cands ! j))) js)"
        using jl rk by (simp add: ds_def)
    next
      fix i assume "i < length (take r ds)"
      then have ir: "i < r" by simp
      then have "i < kk" "i < m" using rk rm by auto
      then show "take r ds ! i = map (\<lambda>j. sqrt (sqd (cands ! j))) js ! i"
        using ir jl jn dn[OF jm[OF ir]] by (simp add: ds_def)
    qed
    have kj: "map (\<lambda>j. sqd (cands ! j)) js = map key js"
      using jsub dn by (auto simp: key_def)
    have sk: "sorted (map key js)" using pp(4) by (simp add: js_def)
    have le: "\<forall>a\<in>set (map key js). \<forall>b\<in>set (map key (drop r idx)). a \<le> b"
      using pp(5) by (auto simp: js_def)
    have "sort (map key js @ map key (drop r idx)) = map key js @ sort (map key (drop r idx))"
      using sort_append_sorted_le[OF sk le] .
    moreover have "map key js @ map key (drop r idx) = map key idx"
      by (simp add: js_def flip: map_append)
    moreover have "sort (map key idx) = sort (map key [0..<m])"
    proof -
      have "mset idx = mset [0..<m]"
        using pp(2,3) by (metis atLeast_upt distinct_upt set_eq_iff_mset_eq_distinct)
      then have "mset (map key idx) = mset (map key [0..<m])" by simp
      then show ?thesis by (metis properties_for_sort sorted_sort mset_sort)
    qed
    moreover have "map key [0..<m] = distances"
      unfolding key_def using dl by (metis map_nth)
    ultimately have "take r (sort distances) = map key js"
      using jl by simp
    then have srt: "map (\<lambda>j. sqd (cands ! j)) js = take r (sort (map sqd (take m cands)))"
      using kj dt by simp
    have sd: "sorted (take r ds)"
    proof -
      have "take r ds = map sqrt (map key js)" using td kj by (simp flip: kj)
      moreover have "sorted (map sqrt (map key js))"
        using sk by (simp add: sorted_iff_nth_mono)
      ultimately show ?thesis by simp
    qed
    have pad: "\<forall>i. r \<le> i \<and> i < kk \<longrightarrow> out ! i = - 1 \<and> ds ! i = - 1"
    proof (intro allI impI)
      fix i assume h: "r \<le> i \<and> i < kk"
      then have "m \<le> i" by (simp add: r_def min_def split: if_splits)
      then show "out ! i = - 1 \<and> ds ! i = - 1" using h by (simp add: out_def ds_def)
    qed
    have "length out = kk" "length ds = kk" by (simp_all add: out_def ds_def)
    with e jl jd jsub to srt td sd pad show ?thesis by blast
  qed
qed

lemma sort_nth_partial_sort_spec: "partial_sort_spec sort_nth"
  unfolding partial_sort_spec_def sort_nth_def
proof (intro allI impI conjI ballI)
  fix key :: "'a \<Rightarrow> real" and middle :: nat and xs :: "'a list"
  show "mset (sort_key key xs) = mset xs" by simp
  show "sorted (map key (take middle (sort_key key xs)))"
    by (metis sorted_sort_key sorted_wrt_take take_map)
  fix a b assume "a \<in> set (take middle (sort_key key xs))" "b \<in> set (drop middle (sort_key key xs))"
  moreover have "sorted (map key (take middle (sort_key key xs)) @ map key (drop middle (sort_key key xs)))"
    by (metis append_take_drop_id map_append sorted_sort_key)
  ultimately show "key a \<le> key b" by (auto simp: sorted_append)
qed

theorem exact_knn_sorted_padded_witness:
  "partial_sort_spec (sort_nth :: (nat \<Rightarrow> real) \<Rightarrow> nat \<Rightarrow> nat list \<Rightarrow> nat list)
   \<and> exact_knn sort_nth ex_X 1 5 ex_q 5 [4, 1, 2, 0, 0] 3
       = Some ([2, 1, 4, - 1, - 1], [0, 1, 2, - 1, - 1])"
proof -
  have s: "partial_sort_spec (sort_nth :: (nat \<Rightarrow> real) \<Rightarrow> nat \<Rightarrow> nat list \<Rightarrow> nat list)"
    by (rule sort_nth_partial_sort_spec)
  have h: "\<forall>p\<in>set (take 3 [4, 1, 2, 0, 0::nat]). p < 5" by simp
  have "exact_knn sort_nth ex_X 1 5 ex_q 5 [4, 1, 2, 0, 0] 3
       = Some ([2, 1, 4, - 1, - 1], [0, 1, 2, - 1, - 1])"
    using exact_knn_sorted_padded[OF s, of 5 3 "[4, 1, 2, 0, 0]" 5 ex_X 1 ex_q, OF _ _ h]
    by (simp add: exact_knn_def sort_nth_def squared_distance_def ex_X_def ex_q_def upt_rec)
  with s show ?thesis by blast
qed

section \<open>Votes and the elected candidates\<close>

subsection \<open>The order in which points reach the threshold\<close>

lemma crossing_order_snoc:
  "crossing_order v (xs @ [x]) =
     crossing_order v xs @ (if count_list xs x + 1 = v then [x] else [])"
proof -
  let ?P = "\<lambda>ys i. count_list (take (Suc i) ys) (ys ! i) = v"
  have a: "filter (?P (xs @ [x])) [0..<length xs] = filter (?P xs) [0..<length xs]"
    by (rule filter_cong) (auto simp: nth_append)
  have b: "map (\<lambda>i. (xs @ [x]) ! i) (filter (?P xs) [0..<length xs])
             = map (\<lambda>i. xs ! i) (filter (?P xs) [0..<length xs])"
    by (rule map_cong) (auto simp: nth_append)
  have c: "?P (xs @ [x]) (length xs) \<longleftrightarrow> count_list xs x + 1 = v"
    by simp
  show ?thesis
    unfolding crossing_order_def using a b c by (simp add: nth_append)
qed

lemma crossing_order_Nil [simp]: "crossing_order v [] = []"
  by (simp add: crossing_order_def)

lemma crossing_order_set_distinct:
  "1 \<le> v \<Longrightarrow> set (crossing_order v xs) = {x. v \<le> count_list xs x}
                \<and> distinct (crossing_order v xs)"
proof (induction xs rule: rev_induct)
  case Nil
  then show ?case by auto
next
  case (snoc x xs)
  then have ih: "set (crossing_order v xs) = {x. v \<le> count_list xs x}"
    "distinct (crossing_order v xs)" by auto
  show ?case
  proof (cases "count_list xs x + 1 = v")
    case True
    then have "x \<notin> set (crossing_order v xs)" using ih(1) by auto
    moreover have "{y. v \<le> count_list (xs @ [x]) y} = insert x {y. v \<le> count_list xs y}"
      using True by auto
    ultimately show ?thesis using True ih by (simp add: crossing_order_snoc)
  next
    case False
    then have "{y. v \<le> count_list (xs @ [x]) y} = {y. v \<le> count_list xs y}"
      by auto
    then show ?thesis using False ih by (simp add: crossing_order_snoc)
  qed
qed

lemma crossing_order_length: "length (crossing_order v xs) \<le> length xs"
  unfolding crossing_order_def
  by (metis length_filter_le length_map length_upt minus_nat.diff_0)

subsection \<open>The vote loop\<close>

text \<open>The state of the vote loop after the votes \<open>cast\<close>.\<close>

lemma vote_one_step:
  assumes "i < length indices" "indices ! i < length vs"
      and "\<forall>x<length vs. vs ! x = count_list cast x"
      and "take n_el el = crossing_order v cast" "n_el \<le> length cast"
      and "length cast < length el"
  shows "\<exists>vs' el' n_el'. vote_one v indices i (vs, el, n_el) = Some (vs', el', n_el')
           \<and> length vs' = length vs \<and> length el' = length el
           \<and> (\<forall>x<length vs'. vs' ! x = count_list (cast @ [indices ! i]) x)
           \<and> take n_el' el' = crossing_order v (cast @ [indices ! i])
           \<and> n_el' \<le> length (cast @ [indices ! i])"
proof -
  let ?x = "indices ! i"
  have cnt: "vs ! ?x = count_list cast ?x" using assms(2,3) by simp
  have upd: "\<forall>y<length vs. (vs[?x := vs ! ?x + 1]) ! y = count_list (cast @ [?x]) y"
    using assms(2,3) by (auto simp: nth_list_update)
  show ?thesis
  proof (cases "vs ! ?x + 1 = v")
    case True
    have lt: "n_el < length el" using assms(5,6) by simp
    have e: "vote_one v indices i (vs, el, n_el)
              = Some (vs[?x := vs ! ?x + 1], el[n_el := ?x], n_el + 1)"
      using True lt assms(1,2) by (simp add: vote_one_def deref_def)
    have "take (n_el + 1) (el[n_el := ?x]) = take n_el el @ [?x]"
      using lt by (simp add: take_Suc_conv_app_nth)
    then have "take (n_el + 1) (el[n_el := ?x]) = crossing_order v (cast @ [?x])"
      using True cnt assms(4) by (simp add: crossing_order_snoc)
    then show ?thesis using e upd assms(5) by simp
  next
    case False
    have e: "vote_one v indices i (vs, el, n_el) = Some (vs[?x := vs ! ?x + 1], el, n_el)"
      using False assms(1,2) by (simp add: vote_one_def deref_def)
    have "take n_el el = crossing_order v (cast @ [?x])"
      using False cnt assms(4) by (simp add: crossing_order_snoc)
    then show ?thesis using e upd assms(5) by simp
  qed
qed

lemma vote_leaf_loop:
  assumes "hi \<le> length indices" "\<forall>x\<in>set indices. x < n"
  shows "\<lbrakk>length vs = n; \<forall>x<length vs. vs ! x = count_list cast x;
          take n_el el = crossing_order v cast; n_el \<le> length cast;
          length cast + (hi - lo) \<le> length el\<rbrakk> \<Longrightarrow>
        \<exists>vs' el' n_el'. fold_option (vote_one v indices) [lo..<hi] (vs, el, n_el) = Some (vs', el', n_el')
           \<and> length vs' = n \<and> length el' = length el
           \<and> (\<forall>x<length vs'. vs' ! x = count_list (cast @ slice indices lo hi) x)
           \<and> take n_el' el' = crossing_order v (cast @ slice indices lo hi)
           \<and> n_el' \<le> length (cast @ slice indices lo hi)"
proof (induction "hi - lo" arbitrary: lo vs el n_el cast)
  case 0
  then have "[lo..<hi] = []" "slice indices lo hi = []" by (auto simp: slice_def)
  then show ?case using 0 by simp
next
  case (Suc d)
  then have lh: "lo < hi" by simp
  then have li: "lo < length indices" using assms(1) by simp
  have xin: "indices ! lo < length vs" using assms(2) li Suc.prems(1) by simp
  have cap: "length cast < length el" using Suc.prems(5) lh by simp
  from vote_one_step[OF li xin Suc.prems(2,3,4) cap]
  obtain vs' el' n_el' where st: "vote_one v indices lo (vs, el, n_el) = Some (vs', el', n_el')"
    "length vs' = length vs" "length el' = length el"
    "\<forall>x<length vs'. vs' ! x = count_list (cast @ [indices ! lo]) x"
    "take n_el' el' = crossing_order v (cast @ [indices ! lo])"
    "n_el' \<le> length (cast @ [indices ! lo])" by blast
  have d: "d = hi - Suc lo" using Suc.hyps(2) by simp
  have cap': "length (cast @ [indices ! lo]) + (hi - Suc lo) \<le> length el'"
    using Suc.prems(5) lh st(3) by simp
  have ln: "length vs' = n" using st(2) Suc.prems(1) by simp
  from Suc.hyps(1)[OF d ln st(4,5,6) cap']
  obtain vs'' el'' n_el'' where st2:
    "fold_option (vote_one v indices) [Suc lo..<hi] (vs', el', n_el') = Some (vs'', el'', n_el'')"
    "length vs'' = n" "length el'' = length el'"
    "\<forall>x<length vs''. vs'' ! x = count_list ((cast @ [indices ! lo]) @ slice indices (Suc lo) hi) x"
    "take n_el'' el'' = crossing_order v ((cast @ [indices ! lo]) @ slice indices (Suc lo) hi)"
    "n_el'' \<le> length ((cast @ [indices ! lo]) @ slice indices (Suc lo) hi)"
    by blast
  have sl: "slice indices lo hi = indices ! lo # slice indices (Suc lo) hi"
    using lh li unfolding slice_def
    by (metis Cons_nth_drop_Suc Suc_diff_Suc take_Suc_Cons)
  have up: "[lo..<hi] = lo # [Suc lo..<hi]" using lh by (simp add: upt_rec)
  have "fold_option (vote_one v indices) [lo..<hi] (vs, el, n_el) = Some (vs'', el'', n_el'')"
    unfolding up using st(1) st2(1) by simp
  then show ?case using st2 st(2,3) sl by simp
qed

subsection \<open>Leaf sizes and offsets\<close>

lemma count_leaf_sizes_char:
  "level \<le> td \<Longrightarrow>
   \<exists>szs. count_leaf_sizes n level td out = Some (out @ szs)
        \<and> length szs = 2 ^ (td - level) \<and> sum_list szs = n
        \<and> (\<forall>x\<in>set szs. x * 2 ^ (td - level) < n + 2 ^ (td - level))"
proof (induction "td - level" arbitrary: n level out)
  case 0
  then have "level = td" by simp
  then have "count_leaf_sizes n level td out = Some (out @ [n])"
    by (simp add: count_leaf_sizes.simps)
  then show ?case using 0 by simp
next
  case (Suc k)
  then have lt: "level < td" and k: "k = td - (level + 1)" and le: "level + 1 \<le> td" by auto
  from Suc.hyps(1)[OF k le, of "n - n div 2" out]
  obtain szs1 where s1: "count_leaf_sizes (n - n div 2) (level + 1) td out = Some (out @ szs1)"
    "length szs1 = 2 ^ k" "sum_list szs1 = n - n div 2"
    "\<forall>x\<in>set szs1. x * 2 ^ k < (n - n div 2) + 2 ^ k" using k by auto
  from Suc.hyps(1)[OF k le, of "n div 2" "out @ szs1"]
  obtain szs2 where s2: "count_leaf_sizes (n div 2) (level + 1) td (out @ szs1) = Some ((out @ szs1) @ szs2)"
    "length szs2 = 2 ^ k" "sum_list szs2 = n div 2"
    "\<forall>x\<in>set szs2. x * 2 ^ k < n div 2 + 2 ^ k" using k by auto
  have e: "count_leaf_sizes n level td out = Some (out @ (szs1 @ szs2))"
    using lt s1(1) s2(1) by (subst count_leaf_sizes.simps) simp
  have tk: "td - level = Suc k" using Suc.hyps(2) by simp
  have b: "\<forall>x\<in>set (szs1 @ szs2). x * 2 ^ Suc k < n + 2 ^ Suc k"
  proof
    fix x assume "x \<in> set (szs1 @ szs2)"
    then consider "x \<in> set szs1" | "x \<in> set szs2" by auto
    then show "x * 2 ^ Suc k < n + 2 ^ Suc k"
    proof cases
      case 1
      then have "x * 2 ^ k < (n - n div 2) + 2 ^ k" using s1(4) by simp
      then have "2 * (x * 2 ^ k) + 2 \<le> 2 * (n - n div 2) + 2 * 2 ^ k" by simp
      moreover have "2 * (n - n div 2) \<le> n + 1" by arith
      ultimately show ?thesis by simp
    next
      case 2
      then have "x * 2 ^ k < n div 2 + 2 ^ k" using s2(4) by simp
      then have "2 * (x * 2 ^ k) < 2 * (n div 2) + 2 * 2 ^ k" by simp
      moreover have "2 * (n div 2) \<le> n" by arith
      ultimately show ?thesis by simp
    qed
  qed
  have "length (szs1 @ szs2) = 2 ^ Suc k" using s1(2) s2(2) by simp
  moreover have "sum_list (szs1 @ szs2) = n" using s1(3) s2(3) by simp
  ultimately show ?case using e b tk by metis
qed

lemma first_indices_fold:
  fixes szs :: "nat list"
  defines "step \<equiv> (\<lambda>i indices. indices[i + 1 := indices ! i + szs ! i])"
  shows "m \<le> length szs \<Longrightarrow>
     length (fold step [0..<m] (replicate (length szs + 1) 0)) = length szs + 1
     \<and> (\<forall>j\<le>m. fold step [0..<m] (replicate (length szs + 1) 0) ! j = sum_list (take j szs))"
proof (induction m)
  case 0
  then show ?case by simp
next
  case (Suc m)
  let ?R = "fold step [0..<m] (replicate (length szs + 1) 0)"
  from Suc have ih: "length ?R = length szs + 1" "\<forall>j\<le>m. ?R ! j = sum_list (take j szs)"
    by auto
  have st: "fold step [0..<Suc m] (replicate (length szs + 1) 0) = ?R[m + 1 := ?R ! m + szs ! m]"
    by (simp add: step_def)
  have ml: "m < length szs" using Suc.prems by simp
  have "\<forall>j\<le>Suc m. (?R[m + 1 := ?R ! m + szs ! m]) ! j = sum_list (take j szs)"
  proof (intro allI impI)
    fix j assume "j \<le> Suc m"
    then consider "j \<le> m" | "j = Suc m" by linarith
    then show "(?R[m + 1 := ?R ! m + szs ! m]) ! j = sum_list (take j szs)"
    proof cases
      case 1
      then show ?thesis using ih by simp
    next
      case 2
      then show ?thesis using ih ml by (simp add: take_Suc_conv_app_nth)
    qed
  qed
  then show ?case using st ih(1) by simp
qed

lemma sum_list_take_le:
  fixes xs :: "nat list"
  shows "sum_list (take j xs) \<le> sum_list xs"
proof -
  have "sum_list xs = sum_list (take j xs) + sum_list (drop j xs)"
    by (metis append_take_drop_id sum_list_append)
  then show ?thesis by simp
qed

lemma count_first_leaf_indices_char:
  assumes "count_first_leaf_indices n d = Some lfi"
  shows "length lfi = 2 ^ d + 1"
    and "\<And>l. l < 2 ^ d \<Longrightarrow> lfi ! l \<le> lfi ! (l + 1)"
    and "\<And>l. l \<le> 2 ^ d \<Longrightarrow> lfi ! l \<le> n"
    and "\<And>l. l < 2 ^ d \<Longrightarrow> (lfi ! (l + 1) - lfi ! l) * 2 ^ d < n + 2 ^ d"
    and "lfi ! 0 = 0" and "lfi ! (2 ^ d) = n"
proof -
  from count_leaf_sizes_char[of 0 d n "[]"]
  obtain szs where sz: "count_leaf_sizes n 0 d [] = Some szs" "length szs = 2 ^ d"
    "sum_list szs = n" "\<forall>x\<in>set szs. x * 2 ^ d < n + 2 ^ d" by auto
  let ?step = "\<lambda>i indices. indices[i + 1 := indices ! i + szs ! i]"
  have lfi: "lfi = fold ?step [0..<length szs] (replicate (length szs + 1) 0)"
    using assms sz(1) by (simp add: count_first_leaf_indices_def)
  from first_indices_fold[of "length szs" szs, OF order_refl]
  have len: "length lfi = length szs + 1"
    and pre: "\<forall>j\<le>length szs. lfi ! j = sum_list (take j szs)"
    unfolding lfi by auto
  show "length lfi = 2 ^ d + 1" using len sz(2) by simp
  show "lfi ! 0 = 0" using pre by simp
  show "lfi ! (2 ^ d) = n" using pre sz(2,3) by simp
  show "\<And>l. l \<le> 2 ^ d \<Longrightarrow> lfi ! l \<le> n"
    using pre sz(2,3) sum_list_take_le[of _ szs] by metis
  have nx: "\<And>l. l < 2 ^ d \<Longrightarrow> lfi ! (l + 1) = lfi ! l + szs ! l"
    using pre sz(2) by (simp add: take_Suc_conv_app_nth)
  show "\<And>l. l < 2 ^ d \<Longrightarrow> lfi ! l \<le> lfi ! (l + 1)" using nx by simp
  show "\<And>l. l < 2 ^ d \<Longrightarrow> (lfi ! (l + 1) - lfi ! l) * 2 ^ d < n + 2 ^ d"
    using nx sz(2,4) by simp
qed

lemma leaf_size_bound:
  fixes x n d :: nat
  assumes "x * 2 ^ d < n + 2 ^ d"
  shows "x \<le> n div 2 ^ d + 1"
proof (rule ccontr)
  assume "\<not> x \<le> n div 2 ^ d + 1"
  then have "n div 2 ^ d + 2 \<le> x" by simp
  then have "(n div 2 ^ d + 2) * 2 ^ d \<le> x * 2 ^ d" by (rule mult_le_mono1)
  moreover have "n < (n div 2 ^ d + 1) * 2 ^ d"
    by (metis add.commute dividend_less_div_times mult.commute mult_Suc plus_1_eq_Suc pos2 zero_less_power)
  ultimately show False using assms by (simp add: algebra_simps)
qed

subsection \<open>Routing\<close>

lemma route_fold_range:
  assumes "\<And>d i. g d i = 2 * i + 1 \<or> g d i = 2 * i + 2"
  shows "2 ^ d \<le> fold g [0..<d] 0 + 1 \<and> fold g [0..<d] (0::nat) + 1 < 2 ^ (d + 1)"
proof (induction d)
  case 0
  then show ?case by simp
next
  case (Suc d)
  let ?i = "fold g [0..<d] 0"
  have st: "fold g [0..<Suc d] 0 = g d ?i" by simp
  from assms[of d ?i] Suc show ?case unfolding st by auto
qed

lemma route_range:
  "2 ^ d \<le> route sp pq d t + 1 \<and> route sp pq d t + 1 < 2 ^ (d + 1)"
  unfolding route_def by (rule route_fold_range) (simp add: Let_def)

lemma found_leaf_range: "found_leaf s q t < 2 ^ depth s"
  using route_range[of "depth s"] unfolding found_leaf_def
  by (metis add_diff_inverse_nat diff_is_0_eq less_diff_conv2 mult_2 nat_add_left_cancel_less
      nat_less_le not_less power_Suc zero_less_numeral zero_less_power Suc_eq_plus1)

subsection \<open>The vote count of a query\<close>

lemma fold_option_append:
  "fold_option f (xs @ ys) st =
     (case fold_option f xs st of None \<Rightarrow> None | Some st' \<Rightarrow> fold_option f ys st')"
  by (induction xs arbitrary: st) (auto split: option.splits)

lemma grown_leaf_facts:
  assumes "grown s" "t < n_trees s"
  shows "found_leaf s q t + 1 < length (leaf_first_indices s)"
    and "leaf_first_indices s ! (found_leaf s q t + 1) \<le> length (tree_leaves s ! t)"
    and "\<forall>x\<in>set (tree_leaves s ! t). x < n_samples s"
    and "length (routed_leaf s q t) * 2 ^ depth s < n_samples s + 2 ^ depth s"
    and "length (routed_leaf s q t) =
           leaf_first_indices s ! (found_leaf s q t + 1) - leaf_first_indices s ! found_leaf s q t"
proof -
  have c: "count_first_leaf_indices (n_samples s) (depth s) = Some (leaf_first_indices s)"
    using assms(1) by (simp add: grown_def)
  have ms: "mset (tree_leaves s ! t) = mset [0..<n_samples s]"
    using assms by (simp add: grown_def)
  have len: "length (tree_leaves s ! t) = n_samples s"
    using ms by (metis length_upt mset_eq_length minus_nat.diff_0)
  have f: "found_leaf s q t < 2 ^ depth s" by (rule found_leaf_range)
  note ch = count_first_leaf_indices_char[OF c]
  show "found_leaf s q t + 1 < length (leaf_first_indices s)" using ch(1) f by simp
  have hi: "leaf_first_indices s ! (found_leaf s q t + 1) \<le> n_samples s"
    using ch(3)[of "found_leaf s q t + 1"] f by simp
  then show "leaf_first_indices s ! (found_leaf s q t + 1) \<le> length (tree_leaves s ! t)"
    using len by simp
  show "\<forall>x\<in>set (tree_leaves s ! t). x < n_samples s"
    using ms by (metis atLeastLessThan_iff mset_eq_setD set_upt)
  show l: "length (routed_leaf s q t) =
           leaf_first_indices s ! (found_leaf s q t + 1) - leaf_first_indices s ! found_leaf s q t"
    using hi len ch(2)[OF f] by (simp add: routed_leaf_def slice_def)
  show "length (routed_leaf s q t) * 2 ^ depth s < n_samples s + 2 ^ depth s"
    unfolding l using ch(4)[OF f] .
qed

lemma vote_tree_step:
  assumes g: "grown s" and t: "t < n_trees s"
      and inv: "length vs = n_samples s" "\<forall>x<length vs. vs ! x = count_list cast x"
        "take n_el el = crossing_order v cast" "n_el \<le> length cast"
      and cap: "length cast + length (routed_leaf s q t) \<le> length el"
  shows "\<exists>vs' el' n_el'.
           vote_tree v (leaf_first_indices s) (map (found_leaf s q) [0..<n_trees s])
             (tree_leaves s) t (vs, el, n_el) = Some (vs', el', n_el')
           \<and> length vs' = n_samples s \<and> length el' = length el
           \<and> (\<forall>x<length vs'. vs' ! x = count_list (cast @ routed_leaf s q t) x)
           \<and> take n_el' el' = crossing_order v (cast @ routed_leaf s q t)
           \<and> n_el' \<le> length (cast @ routed_leaf s q t)"
proof -
  note lf = grown_leaf_facts[OF g t]
  let ?f = "found_leaf s q t"
  let ?lo = "leaf_first_indices s ! ?f" and ?hi = "leaf_first_indices s ! (?f + 1)"
  have tl: "t < length (tree_leaves s)" using g t by (simp add: grown_def)
  have e: "vote_tree v (leaf_first_indices s) (map (found_leaf s q) [0..<n_trees s])
             (tree_leaves s) t (vs, el, n_el)
           = fold_option (vote_one v (tree_leaves s ! t)) [?lo..<?hi] (vs, el, n_el)"
  proof -
    have "found_leaf s q t + 1 < length (leaf_first_indices s)" by (rule lf(1))
    then have "found_leaf s q t < length (leaf_first_indices s)"
      "Suc (found_leaf s q t) < length (leaf_first_indices s)" by simp_all
    then show ?thesis using t tl by (simp add: vote_tree_def deref_def)
  qed
  have cap': "length cast + (?hi - ?lo) \<le> length el" using cap lf(5) by simp
  from vote_leaf_loop[OF lf(2) lf(3) inv cap']
  show ?thesis unfolding e routed_leaf_def by simp
qed

lemma vote_trees_loop:
  assumes g: "grown s"
  defines "mls \<equiv> n_samples s div 2 ^ depth s + 1"
  shows "m \<le> n_trees s \<Longrightarrow>
     \<exists>vs el n_el.
        fold_option (vote_tree v (leaf_first_indices s) (map (found_leaf s q) [0..<n_trees s])
                       (tree_leaves s))
          [0..<m] (replicate (n_samples s) 0, replicate (n_trees s * mls) 0, 0) = Some (vs, el, n_el)
        \<and> length vs = n_samples s \<and> length el = n_trees s * mls
        \<and> (\<forall>x<length vs. vs ! x = count_list (concat (map (routed_leaf s q) [0..<m])) x)
        \<and> take n_el el = crossing_order v (concat (map (routed_leaf s q) [0..<m]))
        \<and> n_el \<le> length (concat (map (routed_leaf s q) [0..<m]))
        \<and> length (concat (map (routed_leaf s q) [0..<m])) \<le> m * mls"
proof (induction m)
  case 0
  then show ?case by simp
next
  case (Suc m)
  let ?F = "vote_tree v (leaf_first_indices s) (map (found_leaf s q) [0..<n_trees s]) (tree_leaves s)"
  let ?cast = "concat (map (routed_leaf s q) [0..<m])"
  from Suc obtain vs el n_el where ih:
    "fold_option ?F [0..<m] (replicate (n_samples s) 0, replicate (n_trees s * mls) 0, 0)
       = Some (vs, el, n_el)"
    "length vs = n_samples s" "length el = n_trees s * mls"
    "\<forall>x<length vs. vs ! x = count_list ?cast x"
    "take n_el el = crossing_order v ?cast" "n_el \<le> length ?cast"
    "length ?cast \<le> m * mls" by auto
  have t: "m < n_trees s" using Suc.prems by simp
  have sz: "length (routed_leaf s q m) \<le> mls"
    unfolding mls_def using grown_leaf_facts(4)[OF g t, where q = q] by (rule leaf_size_bound)
  have "Suc m \<le> n_trees s" using t by simp
  then have "Suc m * mls \<le> n_trees s * mls" by (rule mult_le_mono1)
  then have cap: "length ?cast + length (routed_leaf s q m) \<le> length el"
    using ih(3,7) sz by simp
  from vote_tree_step[OF g t ih(2,4,5,6) cap]
  obtain vs' el' n_el' where st: "?F m (vs, el, n_el) = Some (vs', el', n_el')"
    "length vs' = n_samples s" "length el' = length el"
    "\<forall>x<length vs'. vs' ! x = count_list (?cast @ routed_leaf s q m) x"
    "take n_el' el' = crossing_order v (?cast @ routed_leaf s q m)"
    "n_el' \<le> length (?cast @ routed_leaf s q m)" by blast
  have c: "concat (map (routed_leaf s q) [0..<Suc m]) = ?cast @ routed_leaf s q m" by simp
  have "fold_option ?F [0..<Suc m] (replicate (n_samples s) 0, replicate (n_trees s * mls) 0, 0)
          = Some (vs', el', n_el')"
    using ih(1) st(1) by (simp add: fold_option_append)
  moreover have "length (?cast @ routed_leaf s q m) \<le> Suc m * mls" using ih(7) sz by simp
  ultimately show ?case unfolding c using st ih(3) by metis
qed

lemma query_vote_run:
  assumes "grown s"
  shows "\<exists>vs el n_el. query_vote s q v = Some (vs, el, n_el)
        \<and> length vs = n_samples s
        \<and> length el = n_trees s * (n_samples s div 2 ^ depth s + 1)
        \<and> (\<forall>x<n_samples s. vs ! x = count_list (vote_sequence s q) x)
        \<and> take n_el el = crossing_order v (vote_sequence s q)
        \<and> n_el \<le> length (vote_sequence s q)
        \<and> length (vote_sequence s q) \<le> n_trees s * (n_samples s div 2 ^ depth s + 1)"
proof -
  have fl: "map (\<lambda>n_tree. route (split_points s)
              (if density s < 1 then sparse_times (sparse_random_matrix s) q
               else dense_times (dense_random_matrix s) (dim s) q) (depth s) n_tree + 1 - 2 ^ depth s)
            [0..<n_trees s] = map (found_leaf s q) [0..<n_trees s]"
    by (simp add: found_leaf_def)
  have e: "query_vote s q v =
     fold_option (vote_tree v (leaf_first_indices s) (map (found_leaf s q) [0..<n_trees s])
                       (tree_leaves s))
          [0..<n_trees s] (replicate (n_samples s) 0,
            replicate (n_trees s * (n_samples s div 2 ^ depth s + 1)) 0, 0)"
    unfolding query_vote_def count_votes_def Let_def fl by simp
  from vote_trees_loop[OF assms order_refl, of v q]
  show ?thesis unfolding e vote_sequence_def by metis
qed

lemma grown_ex_forest: "grown ex_forest"
proof -
  have "count_first_leaf_indices 4 1 = Some [0, 2, 4]"
    by code_simp
  moreover have "\<forall>t<2. mset ([[0, 1, 2, 3], [1, 0, 3, 2]] ! t) = mset [0..<4::nat]"
  proof (intro allI impI)
    fix t :: nat assume "t < 2"
    then consider "t = 0" | "t = 1" by linarith
    then show "mset ([[0, 1, 2, 3], [1, 0, 3, 2]] ! t) = mset [0..<4::nat]"
    proof cases
      case 1
      have "mset [0, 1, 2, 3] = mset [0..<4::nat]" by code_simp
      then show ?thesis using 1 by simp
    next
      case 2
      have "mset [1, 0, 3, 2] = mset [0..<4::nat]" by code_simp
      then show ?thesis using 2 by simp
    qed
  qed
  ultimately show ?thesis
    by (simp add: grown_def ex_forest_def Mrpt_new_def)
qed

text \<open>
  Claim C3. For every query on a grown forest with \<open>votes_required = v \<ge> 1\<close>, the vote count
  returns, its counters hold for every point the number of votes cast for it in the routed
  leaves of all trees, and the elected list (the first \<open>n_el\<close> slots of the buffer) holds the
  points in the order in which their counter reached \<open>v\<close>: exactly the points whose total
  vote count is at least \<open>v\<close>, each once.
\<close>

theorem query_vote_elected:
  assumes "grown s" and "1 \<le> v"
  shows "\<exists>vs el n_el. query_vote s q v = Some (vs, el, n_el)
           \<and> (\<forall>p<n_samples s. vs ! p = count_list (vote_sequence s q) p)
           \<and> take n_el el = crossing_order v (vote_sequence s q)
           \<and> set (take n_el el) = {p. v \<le> count_list (vote_sequence s q) p}
           \<and> distinct (take n_el el)"
proof -
  from query_vote_run[OF assms(1), of q v]
  obtain vs el n_el where r: "query_vote s q v = Some (vs, el, n_el)"
    "\<forall>x<n_samples s. vs ! x = count_list (vote_sequence s q) x"
    "take n_el el = crossing_order v (vote_sequence s q)" by blast
  from crossing_order_set_distinct[OF assms(2), of "vote_sequence s q"] r(3)
  have "set (take n_el el) = {p. v \<le> count_list (vote_sequence s q) p}"
    "distinct (take n_el el)" by simp_all
  with r show ?thesis by blast
qed

theorem query_vote_elected_witness:
  "grown ex_forest \<and> query_vote ex_forest ex_q 2 = Some ([0, 0, 2, 2], [3, 2, 0, 0, 0, 0], 2)"
proof -
  have e: "query_vote ex_forest ex_q 2 = Some ([0, 0, 2, 2], [3, 2, 0, 0, 0, 0], 2)"
    by code_simp
  have v: "(1::nat) \<le> 2" by simp
  show ?thesis
    using query_vote_elected[OF grown_ex_forest v, of ex_q] grown_ex_forest e by simp
qed

lemma ceil_div_bound:
  fixes x n d :: nat
  assumes "x * 2 ^ d < n + 2 ^ d"
  shows "x \<le> (n + 2 ^ d - 1) div 2 ^ d"
proof -
  have "x * 2 ^ d \<le> n + 2 ^ d - 1" using assms by simp
  then have "x * 2 ^ d div 2 ^ d \<le> (n + 2 ^ d - 1) div 2 ^ d" by (rule div_le_mono)
  then show ?thesis by simp
qed

text \<open>
  Claim C10. For every query on a grown forest with \<open>votes_required = v \<ge> 1\<close>, the vote count
  returns, that is, no write \<^verbatim>\<open>elected(n_elected++)\<close> falls outside the buffer; the buffer
  has \<open>n_trees * (n_samples div 2 ^ depth + 1)\<close> slots and the number \<open>n_el\<close> of elected
  candidates does not exceed it. Every leaf holds at most \<open>\<lceil>n_samples / 2 ^ depth\<rceil>\<close> points,
  the routed leaf of every tree too, which is at most \<open>n_samples div 2 ^ depth + 1\<close>; the
  votes are those of one leaf per tree; the elected points are distinct and not more than
  the votes cast.
\<close>

theorem elected_within_capacity:
  assumes "grown s" and "1 \<le> v"
  shows "\<exists>vs el n_el. query_vote s q v = Some (vs, el, n_el)
           \<and> length el = n_trees s * (n_samples s div 2 ^ depth s + 1)
           \<and> n_el \<le> length el
           \<and> distinct (take n_el el)
           \<and> n_el \<le> length (vote_sequence s q)
           \<and> length (vote_sequence s q) \<le> n_trees s * (n_samples s div 2 ^ depth s + 1)
           \<and> (\<forall>l<2 ^ depth s. leaf_first_indices s ! (l + 1) - leaf_first_indices s ! l
                   \<le> (n_samples s + 2 ^ depth s - 1) div 2 ^ depth s)
           \<and> (\<forall>t<n_trees s. length (routed_leaf s q t)
                   \<le> (n_samples s + 2 ^ depth s - 1) div 2 ^ depth s
                 \<and> length (routed_leaf s q t) \<le> n_samples s div 2 ^ depth s + 1)"
proof -
  from query_vote_run[OF assms(1), of q v]
  obtain vs el n_el where r: "query_vote s q v = Some (vs, el, n_el)"
    "length el = n_trees s * (n_samples s div 2 ^ depth s + 1)"
    "take n_el el = crossing_order v (vote_sequence s q)"
    "n_el \<le> length (vote_sequence s q)"
    "length (vote_sequence s q) \<le> n_trees s * (n_samples s div 2 ^ depth s + 1)" by blast
  have d: "distinct (take n_el el)"
    using crossing_order_set_distinct[OF assms(2), of "vote_sequence s q"] r(3) by simp
  have c: "count_first_leaf_indices (n_samples s) (depth s) = Some (leaf_first_indices s)"
    using assms(1) by (simp add: grown_def)
  have lf: "\<forall>l<2 ^ depth s. leaf_first_indices s ! (l + 1) - leaf_first_indices s ! l
                   \<le> (n_samples s + 2 ^ depth s - 1) div 2 ^ depth s"
    using count_first_leaf_indices_char(4)[OF c] ceil_div_bound by blast
  have rl: "\<forall>t<n_trees s. length (routed_leaf s q t)
                   \<le> (n_samples s + 2 ^ depth s - 1) div 2 ^ depth s
                 \<and> length (routed_leaf s q t) \<le> n_samples s div 2 ^ depth s + 1"
    using grown_leaf_facts(4)[OF assms(1)] ceil_div_bound leaf_size_bound by blast
  have "n_el \<le> length el" using r(2,4,5) by simp
  with r d lf rl show ?thesis by blast
qed

theorem elected_within_capacity_witness:
  "grown ex_forest \<and> query_vote ex_forest ex_q 1 = Some ([0, 0, 2, 2], [2, 3, 0, 0, 0, 0], 2)"
proof -
  have e: "query_vote ex_forest ex_q 1 = Some ([0, 0, 2, 2], [2, 3, 0, 0, 0, 0], 2)"
    by code_simp
  have v: "(1::nat) \<le> 1" by simp
  show ?thesis
    using elected_within_capacity[OF grown_ex_forest v, of ex_q] grown_ex_forest e by simp
qed

section \<open>Trimming, and queries that elect nothing\<close>

definition ex_tuned :: Mrpt where
  "ex_tuned = ex_forest\<lparr>member_k := 3, opt_pars := [ex_par 1 1 (1 / 2)]\<rparr>"

subsection \<open>Queries that elect nothing\<close>

lemma crossing_order_zero: "crossing_order 0 xs = []"
proof -
  have "\<And>i. i < length xs \<Longrightarrow> count_list (take (Suc i) xs) (xs ! i) \<noteq> 0"
    by (simp add: take_Suc_conv_app_nth)
  then show ?thesis by (simp add: crossing_order_def)
qed





lemma query_nothing_elected:
  assumes g: "grown s" and co: "crossing_order v (vote_sequence s q) = []"
  shows "query psort s q kk v = Some (replicate kk (- 1), replicate kk (- 1), 0)"
proof -
  from query_vote_run[OF g, of q v]
  obtain vs el n_el where r: "query_vote s q v = Some (vs, el, n_el)"
    "length el = n_trees s * (n_samples s div 2 ^ depth s + 1)"
    "take n_el el = crossing_order v (vote_sequence s q)"
    "n_el \<le> length (vote_sequence s q)"
    "length (vote_sequence s q) \<le> n_trees s * (n_samples s div 2 ^ depth s + 1)" by blast
  have "n_el \<le> length el" using r(2,4,5) by simp
  moreover have "take n_el el = []" using r(3) co by simp
  ultimately have "n_el = 0" by auto
  then show ?thesis using r(1) by (simp add: query_def exact_knn_def)
qed

lemma query_empty_forest:
  assumes "n_trees s = 0"
  shows "query psort s q kk v = Some (replicate kk (- 1), replicate kk (- 1), 0)"
  using assms by (simp add: query_def query_vote_def count_votes_def exact_knn_def)

subsection \<open>Trimming on an infeasible target\<close>

lemma get_optimal_parameters_infeasible:
  assumes "\<forall>p\<in>set ps. \<not> estimated_recall p > target_recall - 0.0001"
  shows "get_optimal_parameters ps target_recall = Parameters_default"
proof -
  have "\<And>tr. \<forall>p\<in>set ps. \<not> estimated_recall p > tr \<Longrightarrow>
          get_optimal_parameters_loop tr ps = Parameters_default"
    by (induction ps) auto
  then show ?thesis using assms by (simp add: get_optimal_parameters_def)
qed

text \<open>
  Claim C7 as stated fails for \<^verbatim>\<open>delete_extra_trees\<close>: on this autotuned forest of two trees
  the target recall 0.9 is infeasible, and the trimmed forest still has its two trees.
\<close>

theorem delete_extra_trees_infeasible_counterexample:
  "get_optimal_parameters (opt_pars ex_tuned) (9 / 10) = Parameters_default
   \<and> map_option n_trees (delete_extra_trees ex_tuned (9 / 10)) = Some 2"
  by (simp add: delete_extra_trees_def get_optimal_parameters_def ex_tuned_def ex_forest_def
        Mrpt_new_def ex_par_def Parameters_default_def)

text \<open>
  Claim C7, amended. When the target recall is infeasible (no element of \<^verbatim>\<open>opt_pars\<close> has an
  estimated recall above \<open>target_recall - 0.0001\<close>): \<^verbatim>\<open>subset_trees\<close> into a freshly
  constructed index returns early and leaves it empty (\<^verbatim>\<open>n_trees = 0\<close>), and every query on
  it writes \<open>-1\<close> into all \<open>kk\<close> output slots; \<^verbatim>\<open>delete_extra_trees\<close> returns early and changes
  nothing but \<^verbatim>\<open>recall_level\<close> and \<^verbatim>\<open>optimal_parameters\<close>, so the forest keeps its trees; on a
  grown forest whose stored vote threshold is still 0 a query with that threshold writes
  \<open>-1\<close> into all \<open>kk\<close> output slots.
\<close>

theorem trim_infeasible:
  assumes inf: "\<forall>p\<in>set (opt_pars s). \<not> estimated_recall p > target_recall - 0.0001"
  shows "subset_trees s target_recall (Mrpt_new data rows cols k0)
           = Some ((Mrpt_new data rows cols k0)
                     \<lparr>recall_level := target_recall, optimal_parameters := Parameters_default\<rparr>)
       \<and> (\<forall>i2. subset_trees s target_recall (Mrpt_new data rows cols k0) = Some i2 \<longrightarrow>
             n_trees i2 = 0 \<and> is_empty i2
             \<and> query psort i2 q kk v = Some (replicate kk (- 1), replicate kk (- 1), 0))
       \<and> delete_extra_trees s target_recall
           = Some (s\<lparr>recall_level := target_recall, optimal_parameters := Parameters_default\<rparr>)
       \<and> (\<forall>s'. delete_extra_trees s target_recall = Some s' \<longrightarrow>
             n_trees s' = n_trees s
             \<and> (grown s \<and> votes s = 0 \<longrightarrow>
                  query psort s' q kk (votes s')
                    = Some (replicate kk (- 1), replicate kk (- 1), 0)))"
proof -
  have go: "get_optimal_parameters (opt_pars s) target_recall = Parameters_default"
    using inf by (rule get_optimal_parameters_infeasible)
  let ?i = "(Mrpt_new data rows cols k0)
              \<lparr>recall_level := target_recall, optimal_parameters := Parameters_default\<rparr>"
  let ?s = "s\<lparr>recall_level := target_recall, optimal_parameters := Parameters_default\<rparr>"
  have a: "subset_trees s target_recall (Mrpt_new data rows cols k0) = Some ?i"
    using go by (simp add: subset_trees_def Let_def Parameters_default_def)
  have ni: "n_trees ?i = 0" by (simp add: Mrpt_new_def)
  have b: "query psort ?i q kk v = Some (replicate kk (- 1), replicate kk (- 1), 0)"
    using ni by (rule query_empty_forest)
  have c: "delete_extra_trees s target_recall = Some ?s"
    using go by (simp add: delete_extra_trees_def Let_def Parameters_default_def)
  have d: "grown s \<and> votes s = 0 \<longrightarrow>
             query psort ?s q kk (votes ?s) = Some (replicate kk (- 1), replicate kk (- 1), 0)"
  proof
    assume h: "grown s \<and> votes s = 0"
    then have g: "grown ?s" by (simp add: grown_def)
    have "crossing_order (votes ?s) (vote_sequence ?s q) = []"
      using h by (simp add: crossing_order_zero)
    from query_nothing_elected[OF g this] show
      "query psort ?s q kk (votes ?s) = Some (replicate kk (- 1), replicate kk (- 1), 0)" .
  qed
  show ?thesis using a b c d ni by (simp add: is_empty_def)
qed

theorem trim_infeasible_witness:
  "subset_trees ex_tuned (9 / 10) (Mrpt_new ex_X 1 4 7)
     = Some ((Mrpt_new ex_X 1 4 7)\<lparr>recall_level := 9 / 10, optimal_parameters := Parameters_default\<rparr>)
   \<and> delete_extra_trees ex_tuned (9 / 10)
     = Some (ex_tuned\<lparr>recall_level := 9 / 10, optimal_parameters := Parameters_default\<rparr>)"
proof -
  have inf: "\<forall>p\<in>set (opt_pars ex_tuned). \<not> estimated_recall p > 9 / 10 - 0.0001"
    by (simp add: ex_tuned_def ex_par_def)
  from trim_infeasible[OF inf, of ex_X 1 4 7] show ?thesis by simp
qed

section \<open>The recall-time frontier of the autotuner\<close>

definition ex_qtime :: "nat \<Rightarrow> nat \<Rightarrow> nat \<Rightarrow> real" where
  "ex_qtime t d v = real t"

subsection \<open>Insertion into an ordered set\<close>

lemma set_insert_set: "set (set_insert p xs) \<subseteq> insert p (set xs)"
  by (induction xs) auto

lemma set_insert_qtimes:
  "estimated_qtime ` set (set_insert p xs) = insert (estimated_qtime p) (estimated_qtime ` set xs)"
  by (induction xs) (auto simp: is_faster_def)

lemma set_insert_ordered: "ordered_set xs \<Longrightarrow> ordered_set (set_insert p xs)"
proof (induction xs)
  case Nil
  then show ?case by (simp add: ordered_set_def)
next
  case (Cons q qs)
  then have ih: "ordered_set (set_insert p qs)" by (simp add: ordered_set_def)
  have qs: "\<forall>x\<in>set qs. is_faster q x" using Cons.prems by (simp add: ordered_set_def)
  show ?case
  proof (cases "is_faster p q")
    case True
    then have "\<forall>x\<in>set qs. is_faster p x" using qs by (auto simp: is_faster_def)
    then show ?thesis using True Cons.prems by (simp add: ordered_set_def)
  next
    case False
    show ?thesis
    proof (cases "is_faster q p")
      case True
      have "\<forall>x\<in>set (set_insert p qs). is_faster q x"
        using set_insert_set[of p qs] qs True by auto
      then show ?thesis using False True ih by (simp add: ordered_set_def)
    next
      case False
      then show ?thesis using \<open>\<not> is_faster p q\<close> Cons.prems by simp
    qed
  qed
qed

lemma set_insert_last:
  "\<forall>x\<in>set xs. is_faster x p \<Longrightarrow> set_insert p xs = xs @ [p]"
  by (induction xs) (auto simp: is_faster_def)

lemma fold_set_insert:
  "ordered_set acc \<Longrightarrow>
   ordered_set (fold set_insert cs acc)
   \<and> set (fold set_insert cs acc) \<subseteq> set cs \<union> set acc
   \<and> estimated_qtime ` set (fold set_insert cs acc)
       = estimated_qtime ` set cs \<union> estimated_qtime ` set acc"
proof (induction cs arbitrary: acc)
  case Nil
  then show ?case by simp
next
  case (Cons c cs)
  have o: "ordered_set (set_insert c acc)" using Cons.prems by (rule set_insert_ordered)
  from Cons.IH[OF o] set_insert_set[of c acc] set_insert_qtimes[of c acc]
  show ?case by auto
qed

lemma fold_concat_map:
  "fold f (concat (map g xs)) acc = fold (\<lambda>x. fold f (g x)) xs acc"
  by (induction xs arbitrary: acc) auto

lemma fit_times_pars_candidates:
  "fit_times_pars gqt grc dmin dmax vmax tmax
     = fold set_insert (fit_times_candidates gqt grc dmin dmax vmax tmax) []"
  by (simp add: fit_times_pars_def fit_times_candidates_def fold_concat_map fold_map comp_def
        Let_def)

subsection \<open>The scan for the frontier\<close>

lemma pareto_fold:
  defines "step \<equiv> (\<lambda>par (opt, best_recall).
                  if estimated_recall par > best_recall
                  then (set_insert par opt, estimated_recall par)
                  else (opt, best_recall))"
  shows "ordered_set ps \<Longrightarrow>
     fold step ps ([], - 1)
       = (filter (\<lambda>p. estimated_recall p > - 1
                      \<and> (\<forall>q\<in>set ps. estimated_qtime q < estimated_qtime p
                            \<longrightarrow> estimated_recall q < estimated_recall p)) ps,
          Max (insert (- 1) (estimated_recall ` set ps)))"
proof (induction ps rule: rev_induct)
  case Nil
  then show ?case by simp
next
  case (snoc p ps)
  let ?A = "\<lambda>xs p. estimated_recall p > - 1
                      \<and> (\<forall>q\<in>set xs. estimated_qtime q < estimated_qtime p
                            \<longrightarrow> estimated_recall q < estimated_recall p)"
  have o: "ordered_set ps" and f: "\<forall>x\<in>set ps. estimated_qtime x < estimated_qtime p"
    using snoc.prems by (auto simp: ordered_set_def sorted_wrt_append is_faster_def)
  from snoc.IH[OF o] have ih: "fold step ps ([], - 1)
       = (filter (?A ps) ps, Max (insert (- 1) (estimated_recall ` set ps)))" .
  let ?b = "Max (insert (- 1) (estimated_recall ` set ps))"
  have same: "filter (?A (ps @ [p])) ps = filter (?A ps) ps"
    by (rule filter_cong) (use f in \<open>auto simp: not_less dest: order.asym\<close>)
  have acc: "?A (ps @ [p]) p \<longleftrightarrow> estimated_recall p > ?b"
    using f by (subst Max_less_iff) auto
  have st: "fold step (ps @ [p]) ([], - 1) = step p (filter (?A ps) ps, ?b)"
    using ih by simp
  show ?case
  proof (cases "estimated_recall p > ?b")
    case True
    have "\<forall>x\<in>set (filter (?A ps) ps). is_faster x p" using f by (simp add: is_faster_def)
    then have ins: "set_insert p (filter (?A ps) ps) = filter (?A ps) ps @ [p]"
      by (rule set_insert_last)
    have mx: "Max (insert (- 1) (estimated_recall ` set (ps @ [p]))) = estimated_recall p"
    proof -
      have "insert (- 1) (estimated_recall ` set (ps @ [p]))
              = insert (estimated_recall p) (insert (- 1) (estimated_recall ` set ps))"
        by auto
      then have "Max (insert (- 1) (estimated_recall ` set (ps @ [p])))
             = max (estimated_recall p) ?b"
        by (metis List.finite_set Max_insert finite_imageI finite_insert insert_not_empty)
      then show ?thesis using True by simp
    qed
    have "step p (filter (?A ps) ps, ?b) = (filter (?A ps) ps @ [p], estimated_recall p)"
      using True ins by (simp only: step_def prod.case if_True)
    moreover have "filter (?A (ps @ [p])) (ps @ [p]) = filter (?A ps) ps @ [p]"
    proof -
      have "filter (?A (ps @ [p])) (ps @ [p])
              = filter (?A (ps @ [p])) ps @ (if ?A (ps @ [p]) p then [p] else [])"
        by (simp only: filter_append filter.simps)
      also have "\<dots> = filter (?A ps) ps @ [p]"
        using acc True by (simp only: same if_True)
      finally show ?thesis .
    qed
    ultimately show ?thesis using st mx by (simp only:)
  next
    case False
    have mx: "Max (insert (- 1) (estimated_recall ` set (ps @ [p]))) = ?b"
    proof -
      have "insert (- 1) (estimated_recall ` set (ps @ [p]))
              = insert (estimated_recall p) (insert (- 1) (estimated_recall ` set ps))"
        by auto
      then have "Max (insert (- 1) (estimated_recall ` set (ps @ [p])))
             = max (estimated_recall p) ?b"
        by (metis List.finite_set Max_insert finite_imageI finite_insert insert_not_empty)
      then show ?thesis using False by simp
    qed
    have "step p (filter (?A ps) ps, ?b) = (filter (?A ps) ps, ?b)"
      using False by (simp only: step_def prod.case if_False)
    moreover have "filter (?A (ps @ [p])) (ps @ [p]) = filter (?A ps) ps"
    proof -
      have "filter (?A (ps @ [p])) (ps @ [p])
              = filter (?A (ps @ [p])) ps @ (if ?A (ps @ [p]) p then [p] else [])"
        by (simp only: filter_append filter.simps)
      also have "\<dots> = filter (?A ps) ps"
        using acc False by (simp only: same if_False append_Nil2)
      finally show ?thesis .
    qed
    ultimately show ?thesis using st mx by (simp only:)
  qed
qed

lemma pareto_frontier_filter:
  assumes "ordered_set ps"
  shows "pareto_frontier ps
       = filter (\<lambda>p. estimated_recall p > - 1
                      \<and> (\<forall>q\<in>set ps. estimated_qtime q < estimated_qtime p
                            \<longrightarrow> estimated_recall q < estimated_recall p)) ps"
  unfolding pareto_frontier_def using pareto_fold[OF assms] by simp

lemma bump_first_ordered:
  assumes "ordered_set ps" "bump_first idx_sum ps = Some ps'"
  shows "ordered_set ps'" and "estimated_qtime ` set ps' = estimated_qtime ` set ps"
    and "set (tl ps') = set (tl ps)"
    and "hd ps' = (hd ps)\<lparr>estimated_recall :=
                    estimated_recall (hd ps) + (if idx_sum > 1 then 0.0002 else 0.0001)\<rparr>"
  using assms by (auto simp: bump_first_def ordered_set_def is_faster_def split: list.splits)

text \<open>
  Claim C8 as stated fails in its second half. With two candidates, of query times 1 and 2
  and recalls 0.5 and 0.50005, scanning the candidates keeps both; \<^verbatim>\<open>fit_times\<close> first raises
  the recall of the fastest record of \<^verbatim>\<open>pars\<close> by 0.0001, to 0.5001, and its \<^verbatim>\<open>opt_pars\<close> holds
  that one record only.
\<close>

theorem fit_times_frontier_counterexample:
  "map_option snd (fit_times_frontier ex_qtime ex_recall 0 1 1 1 2)
     = Some [ex_par 1 1 (5001 / 10000)]
   \<and> spec_frontier (fit_times_candidates ex_qtime ex_recall 1 1 1 2)
     = [ex_par 1 1 (1 / 2), ex_par 2 2 (50005 / 100000)]"
proof -
  have c: "fit_times_candidates ex_qtime ex_recall 1 1 1 2
             = [ex_par 1 1 (1 / 2), ex_par 2 2 (50005 / 100000)]"
    by (simp add: fit_times_candidates_def ex_qtime_def ex_recall_def ex_par_def upt_rec)
  have p: "fit_times_pars ex_qtime ex_recall 1 1 1 2
             = [ex_par 1 1 (1 / 2), ex_par 2 2 (50005 / 100000)]"
    unfolding fit_times_pars_candidates c by (simp add: ex_par_def is_faster_def)
  have a: "map_option snd (fit_times_frontier ex_qtime ex_recall 0 1 1 1 2)
             = Some [ex_par 1 1 (5001 / 10000)]"
    unfolding fit_times_frontier_def p
    by (simp add: bump_first_def pareto_frontier_def ex_par_def is_faster_def)
  have b: "spec_frontier (fit_times_candidates ex_qtime ex_recall 1 1 1 2)
             = [ex_par 1 1 (1 / 2), ex_par 2 2 (50005 / 100000)]"
    unfolding c by (simp add: spec_frontier_def ex_par_def)
  from a b show ?thesis by blast
qed

text \<open>
  Claim C8, amended. When \<^verbatim>\<open>fit_times\<close> has at least one candidate, it completes, and:
  \<^verbatim>\<open>pars\<close> is the ordered set obtained by inserting the candidates in loop order (so it keeps
  one record for each distinct estimated query time) and then raising the estimated recall
  of its fastest record by 0.0001 or 0.0002; along \<^verbatim>\<open>opt_pars\<close> in container order both the
  estimated query time and the estimated recall strictly increase; and \<^verbatim>\<open>opt_pars\<close> consists
  exactly of the records of \<^verbatim>\<open>pars\<close> accepted by scanning \<^verbatim>\<open>pars\<close> in ascending estimated query
  time and keeping a record only when its estimated recall strictly exceeds the best recall
  seen so far, which starts at \<open>-1\<close>: the records whose recall is above \<open>-1\<close> and above the
  recall of every faster record of \<^verbatim>\<open>pars\<close>.
\<close>

theorem fit_times_frontier_pareto:
  fixes gqt grc :: "nat \<Rightarrow> nat \<Rightarrow> nat \<Rightarrow> real" and dmin dmax vmax tmax :: nat
  defines "cands \<equiv> fit_times_candidates gqt grc dmin dmax vmax tmax"
  assumes ne: "cands \<noteq> []"
  shows "\<exists>pars opt. fit_times_frontier gqt grc idx_sum dmin dmax vmax tmax = Some (pars, opt)
     \<and> bump_first idx_sum (fold set_insert cands []) = Some pars
     \<and> ordered_set pars
     \<and> estimated_qtime ` set pars = estimated_qtime ` set cands
     \<and> set (tl pars) \<subseteq> set cands
     \<and> sorted_wrt (\<lambda>a b. estimated_qtime a < estimated_qtime b
                          \<and> estimated_recall a < estimated_recall b) opt
     \<and> opt = filter (\<lambda>p. estimated_recall p > - 1
                      \<and> (\<forall>q\<in>set pars. estimated_qtime q < estimated_qtime p
                            \<longrightarrow> estimated_recall q < estimated_recall p)) pars"
proof -
  define pars0 where "pars0 = fold set_insert cands []"
  have o0: "ordered_set ([] :: Parameters list)" by (simp add: ordered_set_def)
  from fold_set_insert[OF o0, of cands]
  have f: "ordered_set pars0" "set pars0 \<subseteq> set cands"
    "estimated_qtime ` set pars0 = estimated_qtime ` set cands"
    by (auto simp: pars0_def)
  have "set pars0 \<noteq> {}" using f(3) ne by auto
  then obtain p ps where pp: "pars0 = p # ps" by (cases pars0) auto
  define pars where
    "pars = p\<lparr>estimated_recall := estimated_recall p + (if idx_sum > 1 then 0.0002 else 0.0001)\<rparr> # ps"
  have b: "bump_first idx_sum pars0 = Some pars" by (simp add: bump_first_def pp pars_def)
  note bo = bump_first_ordered[OF f(1) b]
  have tl: "set (tl pars) \<subseteq> set cands" using bo(3) f(2) pp by auto
  let ?A = "\<lambda>p. estimated_recall p > - 1
                      \<and> (\<forall>q\<in>set pars. estimated_qtime q < estimated_qtime p
                            \<longrightarrow> estimated_recall q < estimated_recall p)"
  have pf: "pareto_frontier pars = filter ?A pars" using bo(1) by (rule pareto_frontier_filter)
  have e: "fit_times_frontier gqt grc idx_sum dmin dmax vmax tmax = Some (pars, filter ?A pars)"
    unfolding fit_times_frontier_def fit_times_pars_candidates
    using b pf by (simp add: pars0_def cands_def)
  have "sorted_wrt is_faster (filter ?A pars)"
    using bo(1) by (simp add: ordered_set_def sorted_wrt_filter)
  then have sw: "sorted_wrt (\<lambda>a b. estimated_qtime a < estimated_qtime b
                          \<and> estimated_recall a < estimated_recall b) (filter ?A pars)"
    by (rule sorted_wrt_mono_rel[rotated]) (auto simp: is_faster_def)
  show ?thesis
    using e b[unfolded pars0_def] bo(1) bo(2)[unfolded f(3)] tl sw by blast
qed

theorem fit_times_frontier_pareto_witness:
  "fit_times_candidates ex_qtime ex_recall 1 1 1 2 \<noteq> []
   \<and> fit_times_frontier ex_qtime ex_recall 0 1 1 1 2
       = Some ([ex_par 1 1 (5001 / 10000), ex_par 2 2 (50005 / 100000)],
               [ex_par 1 1 (5001 / 10000)])"
proof -
  have c: "fit_times_candidates ex_qtime ex_recall 1 1 1 2
             = [ex_par 1 1 (1 / 2), ex_par 2 2 (50005 / 100000)]"
    by (simp add: fit_times_candidates_def ex_qtime_def ex_recall_def ex_par_def upt_rec)
  then have ne: "fit_times_candidates ex_qtime ex_recall 1 1 1 2 \<noteq> []" by simp
  have p: "fit_times_pars ex_qtime ex_recall 1 1 1 2
             = [ex_par 1 1 (1 / 2), ex_par 2 2 (50005 / 100000)]"
    unfolding fit_times_pars_candidates c by (simp add: ex_par_def is_faster_def)
  have e: "fit_times_frontier ex_qtime ex_recall 0 1 1 1 2
       = Some ([ex_par 1 1 (5001 / 10000), ex_par 2 2 (50005 / 100000)],
               [ex_par 1 1 (5001 / 10000)])"
    unfolding fit_times_frontier_def p
    by (simp add: bump_first_def pareto_frontier_def ex_par_def is_faster_def)
  from fit_times_frontier_pareto[OF ne, of 0] ne e show ?thesis by simp
qed

section \<open>Growing the trees\<close>

subsection \<open>Subtrees of the implicit binary tree\<close>

lemma in_subtree_iff:
  "in_subtree i j \<longleftrightarrow> (\<exists>m. 2 ^ m * (i + 1) \<le> j + 1 \<and> j + 1 < 2 ^ m * (i + 2))"
proof
  assume "in_subtree i j"
  then show "\<exists>m. 2 ^ m * (i + 1) \<le> j + 1 \<and> j + 1 < 2 ^ m * (i + 2)"
    by (auto simp: in_subtree_def)
next
  assume "\<exists>m. 2 ^ m * (i + 1) \<le> j + 1 \<and> j + 1 < 2 ^ m * (i + 2)"
  then obtain m where m: "2 ^ m * (i + 1) \<le> j + 1" "j + 1 < 2 ^ m * (i + 2)" by blast
  have "(2::nat) ^ m \<le> 2 ^ m * (i + 1)" by simp
  then have "(2::nat) ^ m \<le> j + 1" using m(1) by linarith
  moreover have "m < 2 ^ m" by (rule less_exp)
  ultimately have "m \<le> j" by linarith
  then show "in_subtree i j" using m by (auto simp: in_subtree_def)
qed

lemma in_subtree_refl: "in_subtree i i"
  unfolding in_subtree_iff by (rule exI[of _ 0]) simp

lemma in_subtree_left: "in_subtree (2 * i + 1) j \<Longrightarrow> in_subtree i j"
proof -
  assume "in_subtree (2 * i + 1) j"
  then obtain m where m: "2 ^ m * (2 * i + 1 + 1) \<le> j + 1" "j + 1 < 2 ^ m * (2 * i + 1 + 2)"
    unfolding in_subtree_iff by blast
  have "2 ^ Suc m * (i + 1) \<le> j + 1" using m(1) by (simp add: algebra_simps)
  moreover have "j + 1 < 2 ^ Suc m * (i + 2)" using m(2) by (simp add: algebra_simps)
  ultimately show ?thesis unfolding in_subtree_iff by blast
qed

lemma in_subtree_right: "in_subtree (2 * i + 2) j \<Longrightarrow> in_subtree i j"
proof -
  assume "in_subtree (2 * i + 2) j"
  then obtain m where m: "2 ^ m * (2 * i + 2 + 1) \<le> j + 1" "j + 1 < 2 ^ m * (2 * i + 2 + 2)"
    unfolding in_subtree_iff by blast
  have "2 ^ Suc m * (i + 1) \<le> j + 1" using m(1) by (simp add: algebra_simps)
  moreover have "j + 1 < 2 ^ Suc m * (i + 2)" using m(2) by (simp add: algebra_simps)
  ultimately show ?thesis unfolding in_subtree_iff by blast
qed

lemma in_subtree_ge: "in_subtree i j \<Longrightarrow> i \<le> j"
proof -
  assume "in_subtree i j"
  then obtain m where m: "2 ^ m * (i + 1) \<le> j + 1" unfolding in_subtree_iff by blast
  have "1 * (i + 1) \<le> 2 ^ m * (i + 1)" by (rule mult_le_mono1) simp
  then show ?thesis using m by simp
qed

lemma not_in_subtree_child: "\<not> in_subtree (2 * i + 1) i" "\<not> in_subtree (2 * i + 2) i"
  using in_subtree_ge[of "2 * i + 1" i] in_subtree_ge[of "2 * i + 2" i] by auto

lemma in_subtree_disjoint:
  assumes "in_subtree (2 * i + 1) j" "in_subtree (2 * i + 2) j"
  shows False
proof -
  obtain m where m: "2 ^ m * (2 * i + 2) \<le> j + 1" "j + 1 < 2 ^ m * (2 * i + 3)"
    using assms(1) unfolding in_subtree_iff by (auto simp: algebra_simps)
  obtain m' where m': "2 ^ m' * (2 * i + 3) \<le> j + 1" "j + 1 < 2 ^ m' * (2 * i + 4)"
    using assms(2) unfolding in_subtree_iff by (auto simp: algebra_simps)
  show False
  proof (cases "m \<le> m'")
    case True
    then have "(2::nat) ^ m \<le> 2 ^ m'" by simp
    then have "2 ^ m * (2 * i + 3) \<le> 2 ^ m' * (2 * i + 3)" by (rule mult_le_mono1)
    then show False using m(2) m'(1) by linarith
  next
    case False
    then have "Suc m' \<le> m" by simp
    then have "(2::nat) ^ Suc m' \<le> 2 ^ m" by (rule power_increasing) simp
    then have "2 ^ Suc m' * (2 * i + 2) \<le> 2 ^ m * (2 * i + 2)" by (rule mult_le_mono1)
    moreover have "2 ^ m' * (2 * i + 4) \<le> 2 ^ Suc m' * (2 * i + 2)" by (simp add: algebra_simps)
    ultimately show False using m(1) m'(2) by linarith
  qed
qed

subsection \<open>Iterator ranges\<close>

lemma slice_length: "hi \<le> length xs \<Longrightarrow> length (slice xs lo hi) = hi - lo"
  by (simp add: slice_def)

lemma slice_replace:
  assumes "lo \<le> hi" "hi \<le> length xs" "length ys = hi - lo"
  defines "xs' \<equiv> take lo xs @ ys @ drop hi xs"
  shows "length xs' = length xs" "take lo xs' = take lo xs" "drop hi xs' = drop hi xs"
        "slice xs' lo hi = ys"
  using assms by (auto simp: slice_def xs'_def)

lemma slice_append:
  assumes "lo \<le> mid" "mid \<le> hi"
  shows "slice xs lo hi = slice xs lo mid @ slice xs mid hi"
proof -
  have e: "hi - lo = (mid - lo) + (hi - mid)" using assms by simp
  have d: "drop (mid - lo) (drop lo xs) = drop mid xs" using assms(1) by simp
  have "take ((mid - lo) + (hi - mid)) (drop lo xs)
          = take (mid - lo) (drop lo xs) @ take (hi - mid) (drop (mid - lo) (drop lo xs))"
    by (rule take_add)
  then show ?thesis unfolding slice_def e d .
qed

lemma slice_cong_take:
  assumes "take a xs = take a ys" "hi \<le> a"
  shows "slice xs lo hi = slice ys lo hi"
proof -
  have "take hi xs = take hi ys" using assms by (metis min.absorb1 take_take)
  then have "drop lo (take hi xs) = drop lo (take hi ys)" by simp
  then show ?thesis by (simp add: slice_def drop_take)
qed

lemma slice_cong_drop:
  assumes "drop a xs = drop a ys" "a \<le> lo"
  shows "slice xs lo hi = slice ys lo hi"
proof -
  have "drop (lo - a) (drop a xs) = drop (lo - a) (drop a ys)" using assms(1) by simp
  then have "drop lo xs = drop lo ys" using assms(2) by simp
  then show ?thesis by (simp add: slice_def)
qed

lemma slice_nth: "lo + k < hi \<Longrightarrow> hi \<le> length xs \<Longrightarrow> slice xs lo hi ! k = xs ! (lo + k)"
  by (simp add: slice_def)

subsection \<open>The largest element, and sorting\<close>

lemma max_element_fold:
  fixes key :: "'a \<Rightarrow> real"
  shows "1 \<le> n \<Longrightarrow> n \<le> length xs \<Longrightarrow>
   fold (\<lambda>p largest. if key (xs ! largest) < key (xs ! p) then p else largest) [1..<n] 0 < n
   \<and> (\<forall>i<n. key (xs ! i) \<le> key (xs ! (fold (\<lambda>p largest. if key (xs ! largest) < key (xs ! p) then p else largest) [1..<n] 0)))"
proof (induction n)
  case 0
  then show ?case by simp
next
  case (Suc n)
  show ?case
  proof (cases "n = 0")
    case True
    then show ?thesis by simp
  next
    case False
    then have n1: "1 \<le> n" by simp
    have nl: "n \<le> length xs" using Suc.prems by simp
    let ?f = "\<lambda>p largest. if key (xs ! largest) < key (xs ! p) then p else largest"
    let ?s = "fold ?f [1..<n] 0"
    from Suc.IH[OF n1 nl] have s: "?s < n" and m: "\<forall>i<n. key (xs ! i) \<le> key (xs ! ?s)" by auto
    have up: "[1..<Suc n] = [1..<n] @ [n]" using n1 by simp
    have step: "fold ?f [1..<Suc n] 0 = ?f n ?s" unfolding up by simp
    show ?thesis
    proof (cases "key (xs ! ?s) < key (xs ! n)")
      case True
      then have e: "fold ?f [1..<Suc n] 0 = n" using step by simp
      have "\<forall>i<Suc n. key (xs ! i) \<le> key (xs ! n)"
      proof (intro allI impI)
        fix i assume "i < Suc n"
        then consider "i < n" | "i = n" by linarith
        then show "key (xs ! i) \<le> key (xs ! n)"
        proof cases
          case 1 then show ?thesis using m True by force
        next
          case 2 then show ?thesis by simp
        qed
      qed
      then show ?thesis using e by simp
    next
      case False
      then have e: "fold ?f [1..<Suc n] 0 = ?s" using step by simp
      have "\<forall>i<Suc n. key (xs ! i) \<le> key (xs ! ?s)"
      proof (intro allI impI)
        fix i assume "i < Suc n"
        then consider "i < n" | "i = n" by linarith
        then show "key (xs ! i) \<le> key (xs ! ?s)"
        proof cases
          case 1 then show ?thesis using m by simp
        next
          case 2 then show ?thesis using False by simp
        qed
      qed
      then show ?thesis using e s by simp
    qed
  qed
qed

lemma max_element_greatest:
  fixes key :: "'a \<Rightarrow> real"
  assumes "xs \<noteq> []"
  shows "max_element key xs < length xs"
    and "key (xs ! max_element key xs) = Max (key ` set xs)"
proof -
  have "1 \<le> length xs" using assms by (cases xs) auto
  from max_element_fold[OF this order_refl, of key]
  have a: "max_element key xs < length xs"
    and b: "\<forall>i<length xs. key (xs ! i) \<le> key (xs ! max_element key xs)"
    by (auto simp: max_element_def)
  show "max_element key xs < length xs" by (rule a)
  show "key (xs ! max_element key xs) = Max (key ` set xs)"
  proof (rule Max_eqI[symmetric])
    show "finite (key ` set xs)" by simp
    show "\<And>y. y \<in> key ` set xs \<Longrightarrow> y \<le> key (xs ! max_element key xs)"
      using b by (auto simp: in_set_conv_nth)
    show "key (xs ! max_element key xs) \<in> key ` set xs" using a by simp
  qed
qed

lemma sort_append_le:
  fixes A B :: "real list"
  assumes "\<forall>a\<in>set A. \<forall>b\<in>set B. a \<le> b"
  shows "sort (A @ B) = sort A @ sort B"
proof (rule properties_for_sort)
  show "mset (sort A @ sort B) = mset (A @ B)" by simp
  show "sorted (sort A @ sort B)" using assms by (simp add: sorted_append)
qed

lemma sorted_last_Max:
  fixes ys :: "real list"
  assumes "sorted ys" "ys \<noteq> []"
  shows "last ys = Max (set ys)"
proof (rule Max_eqI[symmetric])
  show "finite (set ys)" by simp
  show "last ys \<in> set ys" using assms(2) by simp
  fix y assume "y \<in> set ys"
  then obtain k where k: "k < length ys" "y = ys ! k" by (auto simp: in_set_conv_nth)
  have "ys ! k \<le> ys ! (length ys - 1)"
    using assms(1) k(1) by (intro sorted_nth_mono) auto
  then show "y \<le> last ys" using k(2) assms(2) by (simp add: last_conv_nth)
qed

lemma sort_mset_cong:
  fixes f :: "'a \<Rightarrow> real"
  shows "mset xs = mset ys \<Longrightarrow> sort (map f xs) = sort (map f ys)"
  by (metis mset_map properties_for_sort sorted_sort mset_sort)

subsection \<open>One call of \<^verbatim>\<open>grow_subtree\<close>\<close>

lemma grow_subtree_leaf:
  "grow_subtree f D tp t (sp, idx) lo hi D i = Some (sp, idx)"
  by (subst grow_subtree.simps) simp

lemma grow_subtree_internal:
  assumes "lvl < D"
  shows "grow_subtree f D tp t (sp, idx) lo hi lvl i =
     (let idx1 = take lo idx @ f (tp lvl) ((hi - lo) div 2) (slice idx lo hi) @ drop hi idx;
          mid = hi - (hi - lo) div 2
      in (if (hi - lo) mod 2 \<noteq> 0
          then deref idx1 (mid - 1) \<bind> (\<lambda>p. Some (tp lvl p))
          else deref idx1 mid \<bind> (\<lambda>m. deref idx1 (lo + max_element (tp lvl) (slice idx1 lo mid))
                 \<bind> (\<lambda>l. Some ((tp lvl m + tp lvl l) / 2))))
         \<bind> (\<lambda>s. grow_subtree f D tp t (sp(i := (sp i)(t := s)), idx1) lo mid (lvl + 1) (2 * i + 1)
         \<bind> (\<lambda>st. grow_subtree f D tp t st mid hi (lvl + 1) (2 * i + 2))))"
  using assms by (subst grow_subtree.simps) (simp add: Let_def)

lemma grow_subtree_frame:
  assumes spec: "nth_element_spec f"
  shows "\<lbrakk>lo \<le> hi; hi \<le> length idx;
          grow_subtree f D tp t (sp, idx) lo hi lvl i = Some (sp', idx')\<rbrakk> \<Longrightarrow>
     length idx' = length idx \<and> take lo idx' = take lo idx \<and> drop hi idx' = drop hi idx
     \<and> mset (slice idx' lo hi) = mset (slice idx lo hi)
     \<and> (\<forall>j t'. sp' j t' \<noteq> sp j t' \<longrightarrow> t' = t \<and> in_subtree i j)"
proof (induction "D - lvl" arbitrary: lvl sp idx lo hi i sp' idx')
  case 0
  then have "D \<le> lvl" by simp
  then consider "lvl = D" | "D < lvl" by linarith
  then show ?case
  proof cases
    case 1
    then show ?thesis using 0(4) by (simp add: grow_subtree_leaf)
  next
    case 2
    then have "grow_subtree f D tp t (sp, idx) lo hi lvl i = None"
      by (subst grow_subtree.simps) simp
    then show ?thesis using 0(4) by simp
  qed
next
  case (Suc k)
  then have lt: "lvl < D" and k: "k = D - (lvl + 1)" by auto
  define m where "m = hi - lo"
  define ys where "ys = f (tp lvl) (m div 2) (slice idx lo hi)"
  define idx1 where "idx1 = take lo idx @ ys @ drop hi idx"
  define mid where "mid = hi - m div 2"
  have sl: "length (slice idx lo hi) = m" using Suc.prems(2) by (simp add: slice_length m_def)
  have nth_le: "m div 2 \<le> length (slice idx lo hi)" using sl by simp
  from spec[unfolded nth_element_spec_def, rule_format, OF nth_le, of "tp lvl"]
  have ms: "mset ys = mset (slice idx lo hi)" by (simp add: ys_def)
  then have yl: "length ys = hi - lo" using sl by (metis m_def mset_eq_length)
  note rp = slice_replace[OF Suc.prems(1,2) yl, folded idx1_def]
  have lm: "lo \<le> mid" "mid \<le> hi" using Suc.prems(1) by (auto simp: mid_def m_def)
  from Suc.prems(3) obtain s sp2 idx2 where
    l: "grow_subtree f D tp t (sp(i := (sp i)(t := s)), idx1) lo mid (lvl + 1) (2 * i + 1)
          = Some (sp2, idx2)"
    and r: "grow_subtree f D tp t (sp2, idx2) mid hi (lvl + 1) (2 * i + 2) = Some (sp', idx')"
    unfolding grow_subtree_internal[OF lt] Let_def
    by (auto simp: bind_eq_Some_conv idx1_def ys_def mid_def m_def)
  have ml1: "mid \<le> length idx1" using lm(2) Suc.prems(2) rp(1) by simp
  from Suc.hyps(1)[OF k lm(1) ml1 l]
  have L: "length idx2 = length idx1" "take lo idx2 = take lo idx1" "drop mid idx2 = drop mid idx1"
    "mset (slice idx2 lo mid) = mset (slice idx1 lo mid)"
    "\<forall>j t'. sp2 j t' \<noteq> (sp(i := (sp i)(t := s))) j t' \<longrightarrow> t' = t \<and> in_subtree (2 * i + 1) j"
    by auto
  have hl2: "hi \<le> length idx2" using Suc.prems(2) rp(1) L(1) by simp
  from Suc.hyps(1)[OF k lm(2) hl2 r]
  have R: "length idx' = length idx2" "take mid idx' = take mid idx2" "drop hi idx' = drop hi idx2"
    "mset (slice idx' mid hi) = mset (slice idx2 mid hi)"
    "\<forall>j t'. sp' j t' \<noteq> sp2 j t' \<longrightarrow> t' = t \<and> in_subtree (2 * i + 2) j"
    by auto
  have len: "length idx' = length idx" using R(1) L(1) rp(1) by simp
  have tk: "take lo idx' = take lo idx"
  proof -
    have "take lo idx' = take lo (take mid idx')" using lm(1) by (simp add: min_def)
    also have "\<dots> = take lo (take mid idx2)" using R(2) by simp
    also have "\<dots> = take lo idx2" using lm(1) by (simp add: min_def)
    finally show ?thesis using L(2) rp(2) by simp
  qed
  have dr: "drop hi idx' = drop hi idx"
  proof -
    have "drop hi idx2 = drop (hi - mid) (drop mid idx2)" using lm(2) by simp
    also have "\<dots> = drop (hi - mid) (drop mid idx1)" using L(3) by simp
    also have "\<dots> = drop hi idx1" using lm(2) by simp
    finally show ?thesis using R(3) rp(3) by simp
  qed
  have msl: "mset (slice idx' lo hi) = mset (slice idx lo hi)"
  proof -
    have "slice idx' lo mid = slice idx2 lo mid" using R(2) by (rule slice_cong_take) simp
    moreover have "slice idx2 mid hi = slice idx1 mid hi" using L(3) by (rule slice_cong_drop) simp
    ultimately have "mset (slice idx' lo hi) = mset (slice idx1 lo mid) + mset (slice idx1 mid hi)"
      using slice_append[OF lm, of idx'] L(4) R(4) by simp
    also have "\<dots> = mset (slice idx1 lo hi)" using slice_append[OF lm, of idx1] by simp
    finally show ?thesis using rp(4) ms by simp
  qed
  have fr: "\<forall>j t'. sp' j t' \<noteq> sp j t' \<longrightarrow> t' = t \<and> in_subtree i j"
  proof (intro allI impI)
    fix j t' assume ne: "sp' j t' \<noteq> sp j t'"
    then consider "sp' j t' \<noteq> sp2 j t'" | "sp2 j t' \<noteq> (sp(i := (sp i)(t := s))) j t'"
      | "(sp(i := (sp i)(t := s))) j t' \<noteq> sp j t'" by metis
    then show "t' = t \<and> in_subtree i j"
    proof cases
      case 1
      then show ?thesis using R(5) in_subtree_right by blast
    next
      case 2
      then show ?thesis using L(5) in_subtree_left by blast
    next
      case 3
      then have "j = i \<and> t' = t" by (auto split: if_splits)
      then show ?thesis using in_subtree_refl by simp
    qed
  qed
  from len tk dr msl fr show ?case by blast
qed

subsection \<open>The partition made by \<^verbatim>\<open>nth_element\<close>\<close>

lemma nth_element_partition:
  fixes key :: "'a \<Rightarrow> real"
  assumes spec: "nth_element_spec f" and m1: "1 \<le> length xs"
  defines "m \<equiv> length xs"
  defines "ys \<equiv> f key (m div 2) xs"
  defines "k \<equiv> m - m div 2"
  shows "mset ys = mset xs"
    and "length (take k ys) = (m + 1) div 2" and "length (drop k ys) = m div 2"
    and "\<forall>p\<in>set (take k ys). \<forall>r\<in>set (drop k ys). key p \<le> key r"
    and "odd m \<Longrightarrow> k - 1 = m div 2 \<and> key (ys ! (k - 1)) = Max (key ` set (take k ys))
                     \<and> key (ys ! (k - 1)) = sort (map key xs) ! ((m + 1) div 2 - 1)"
    and "even m \<Longrightarrow> k = m div 2 \<and> k < m \<and> take k ys \<noteq> []
                     \<and> key (ys ! k) = Min (key ` set (drop k ys))"
proof -
  have nl: "m div 2 \<le> length xs" by (simp add: m_def)
  from spec[unfolded nth_element_spec_def, rule_format, OF nl, of key]
  have ms: "mset ys = mset xs"
    and le: "\<And>i j. i \<le> m div 2 \<Longrightarrow> m div 2 \<le> j \<Longrightarrow> j < m \<Longrightarrow> key (ys ! i) \<le> key (ys ! j)"
    by (auto simp: ys_def m_def)
  show "mset ys = mset xs" by (rule ms)
  have yl: "length ys = m" using ms by (metis m_def mset_eq_length)
  have km: "k \<le> m" by (simp add: k_def)
  show lk: "length (take k ys) = (m + 1) div 2" using yl km by (simp add: k_def; arith)
  show ld: "length (drop k ys) = m div 2" using yl by (simp add: k_def)
  have kn: "m div 2 \<le> k" by (simp add: k_def; arith)
  have kn1: "k \<le> m div 2 + 1" by (simp add: k_def; arith)
  show pw: "\<forall>p\<in>set (take k ys). \<forall>r\<in>set (drop k ys). key p \<le> key r"
  proof (intro ballI)
    fix p r assume "p \<in> set (take k ys)" "r \<in> set (drop k ys)"
    then obtain a b where a: "a < k" "p = ys ! a" and b: "b < m - k" "r = ys ! (k + b)"
      using yl km by (auto simp: in_set_conv_nth)
    have "a \<le> m div 2" using a(1) kn1 by simp
    moreover have "m div 2 \<le> k + b" using kn by simp
    moreover have "k + b < m" using b(1) by simp
    ultimately show "key p \<le> key r" unfolding a(2) b(2) by (rule le)
  qed
  have m1': "1 \<le> m" using m1 by (simp add: m_def)
  {
    assume od: "odd m"
    then have k1: "k - 1 = m div 2" by (simp add: k_def; presburger)
    have kpos: "0 < k" using m1' by (simp add: k_def; arith)
    have inL: "ys ! (k - 1) \<in> set (take k ys)"
      using kpos km yl by (metis diff_less in_set_conv_nth length_take less_numeral_extra(1)
          min.absorb2 nth_take)
    have mx: "key (ys ! (k - 1)) = Max (key ` set (take k ys))"
    proof (rule Max_eqI[symmetric])
      show "finite (key ` set (take k ys))" by simp
      show "key (ys ! (k - 1)) \<in> key ` set (take k ys)" using inL by simp
      fix y assume "y \<in> key ` set (take k ys)"
      then obtain a where a: "a < k" "y = key (ys ! a)"
        using yl km by (auto simp: in_set_conv_nth)
      have "a \<le> m div 2" using a(1) k1 by simp
      moreover have "m div 2 < m" using m1' by simp
      ultimately show "y \<le> key (ys ! (k - 1))" unfolding a(2) k1 by (intro le) auto
    qed
    have "sort (map key xs) = sort (map key ys)" using ms by (rule sort_mset_cong[symmetric])
    also have "\<dots> = sort (map key (take k ys) @ map key (drop k ys))"
      by (simp flip: map_append)
    also have "\<dots> = sort (map key (take k ys)) @ sort (map key (drop k ys))"
      using pw by (intro sort_append_le) auto
    finally have so: "sort (map key xs)
                        = sort (map key (take k ys)) @ sort (map key (drop k ys))" .
    have ls: "length (sort (map key (take k ys))) = k" using yl km by simp
    have "(m + 1) div 2 - 1 = k - 1" using lk yl km by simp
    then have "sort (map key xs) ! ((m + 1) div 2 - 1) = sort (map key (take k ys)) ! (k - 1)"
      using so ls kpos by (simp add: nth_append)
    also have "\<dots> = last (sort (map key (take k ys)))"
      using ls kpos by (metis last_conv_nth length_0_conv less_numeral_extra(3))
    also have "\<dots> = Max (set (sort (map key (take k ys))))"
    proof (rule sorted_last_Max)
      show "sorted (sort (map key (take k ys)))" by simp
      show "sort (map key (take k ys)) \<noteq> []"
        using ls kpos by (metis length_0_conv less_numeral_extra(3))
    qed
    also have "\<dots> = Max (key ` set (take k ys))" by simp
    finally have "key (ys ! (k - 1)) = sort (map key xs) ! ((m + 1) div 2 - 1)"
      using mx by simp
    with k1 mx show "k - 1 = m div 2 \<and> key (ys ! (k - 1)) = Max (key ` set (take k ys))
                     \<and> key (ys ! (k - 1)) = sort (map key xs) ! ((m + 1) div 2 - 1)" by simp
  }
  {
    assume ev: "even m"
    then have k2: "k = m div 2" by (simp add: k_def; presburger)
    have m2: "2 \<le> m" using ev m1' by presburger
    then have km': "k < m" "0 < k" using k2 by auto
    have ne: "take k ys \<noteq> []" using km' yl by auto
    have inR: "ys ! k \<in> set (drop k ys)"
      using km' yl by (metis Cons_nth_drop_Suc list.set_intros(1))
    have mn: "key (ys ! k) = Min (key ` set (drop k ys))"
    proof (rule Min_eqI[symmetric])
      show "finite (key ` set (drop k ys))" by simp
      show "key (ys ! k) \<in> key ` set (drop k ys)" using inR by simp
      fix y assume "y \<in> key ` set (drop k ys)"
      then obtain b where b: "b < m - k" "y = key (ys ! (k + b))"
        using yl km by (auto simp: in_set_conv_nth)
      have "k + b < m" using b(1) by simp
      then show "key (ys ! k) \<le> y" unfolding b(2) using k2 by (intro le) auto
    qed
    from k2 km'(1) ne mn show "k = m div 2 \<and> k < m \<and> take k ys \<noteq> []
                     \<and> key (ys ! k) = Min (key ` set (drop k ys))" by simp
  }
qed

lemma median_splitI:
  fixes key :: "nat \<Rightarrow> real"
  assumes "mid = hi - (hi - lo) div 2" "m = hi - lo" "key = tp lvl" "L = slice idx lo mid"
      "R = slice idx mid hi" "W = slice idx lo hi" "s = sp i t"
    and "1 \<le> m" "length L = (m + 1) div 2" "length R = m div 2"
      "\<forall>p\<in>set L. \<forall>r\<in>set R. key p \<le> key r"
      "odd m \<longrightarrow> s = sort (map key W) ! ((m + 1) div 2 - 1) \<and> s = Max (key ` set L)"
      "even m \<longrightarrow> s = (Max (key ` set L) + Min (key ` set R)) / 2"
      "\<forall>p\<in>set L. key p \<le> s"
  shows "median_split tp t sp idx (lo, hi, lvl, i)"
  using assms(8-) unfolding median_split_def Let_def prod.case assms(1-7)
  by (intro conjI) assumption+

lemma median_split_mset:
  assumes "mset (slice idx' lo mid) = mset (slice idx lo mid)"
      and "mset (slice idx' mid hi) = mset (slice idx mid hi)"
      and "lo \<le> mid" "mid \<le> hi" "mid = hi - (hi - lo) div 2" "sp' i t = sp i t"
      and "median_split tp t sp idx (lo, hi, lvl, i)"
  shows "median_split tp t sp' idx' (lo, hi, lvl, i)"
proof -
  have sl: "set (slice idx' lo mid) = set (slice idx lo mid)"
    using assms(1) by (rule mset_eq_setD)
  have sr: "set (slice idx' mid hi) = set (slice idx mid hi)"
    using assms(2) by (rule mset_eq_setD)
  have ll: "length (slice idx' lo mid) = length (slice idx lo mid)"
    using assms(1) by (rule mset_eq_length)
  have lr: "length (slice idx' mid hi) = length (slice idx mid hi)"
    using assms(2) by (rule mset_eq_length)
  have "mset (slice idx' lo hi) = mset (slice idx lo hi)"
    using slice_append[OF assms(3,4), of idx'] slice_append[OF assms(3,4), of idx] assms(1,2)
    by simp
  then have so: "sort (map (tp lvl) (slice idx' lo hi)) = sort (map (tp lvl) (slice idx lo hi))"
    by (rule sort_mset_cong)
  have "median_split tp t sp' idx' (lo, hi, lvl, i) = median_split tp t sp idx (lo, hi, lvl, i)"
    unfolding median_split_def Let_def prod.case assms(5)[symmetric]
    by (simp only: sl sr ll lr so assms(6) simp_thms)
  then show ?thesis using assms(7) by simp
qed

lemma median_split_root:
  fixes tp :: "nat \<Rightarrow> nat \<Rightarrow> real" and lvl :: nat and idx :: "nat list"
  assumes spec: "nth_element_spec f" and lh: "lo \<le> hi" "hi \<le> length idx" and m1: "1 \<le> hi - lo"
  defines "idx1 \<equiv> take lo idx @ f (tp lvl) ((hi - lo) div 2) (slice idx lo hi) @ drop hi idx"
  defines "mid \<equiv> hi - (hi - lo) div 2"
  shows "\<exists>s. (if (hi - lo) mod 2 \<noteq> 0
          then deref idx1 (mid - 1) \<bind> (\<lambda>p. Some (tp lvl p))
          else deref idx1 mid \<bind> (\<lambda>m. deref idx1 (lo + max_element (tp lvl) (slice idx1 lo mid))
                 \<bind> (\<lambda>l. Some ((tp lvl m + tp lvl l) / 2)))) = Some s
        \<and> median_split tp t (sp(i := (sp i)(t := s))) idx1 (lo, hi, lvl, i)"
proof -
  define m where "m = hi - lo"
  define key where "key = tp lvl"
  define xs where "xs = slice idx lo hi"
  define ys where "ys = f key (m div 2) xs"
  define k where "k = m - m div 2"
  have xl: "length xs = m" using lh(2) by (simp add: xs_def m_def slice_length)
  have x1: "1 \<le> length xs" using xl m1 by (simp add: m_def)
  note pt = nth_element_partition[OF spec x1, of key, unfolded xl, folded ys_def k_def]
  have yl: "length ys = m" using pt(1) xl by (metis mset_eq_length)
  have i1: "idx1 = take lo idx @ ys @ drop hi idx"
    by (simp add: idx1_def ys_def key_def xs_def m_def)
  have midk: "mid = lo + k" using lh(1) by (simp add: mid_def k_def m_def)
  have midE: "mid = hi - (hi - lo) div 2" by (simp add: mid_def)
  have km: "k \<le> m" by (simp add: k_def)
  have ll: "length (take lo idx) = lo" using lh by simp
  have l1: "length idx1 = length idx" using lh yl by (simp add: i1 m_def)
  have nth1: "\<And>a. a < m \<Longrightarrow> idx1 ! (lo + a) = ys ! a"
    using ll yl by (simp add: i1 nth_append)
  have L0: "slice idx1 lo mid = take k ys"
    using ll yl km by (simp add: slice_def i1 midk)
  have R0: "slice idx1 mid hi = drop k ys"
  proof -
    have "drop mid idx1 = drop k ys @ drop hi idx"
      using ll yl km by (simp add: i1 midk)
    moreover have "hi - mid = length (drop k ys)" using yl lh(1) by (simp add: midk m_def k_def)
    ultimately show ?thesis by (simp add: slice_def)
  qed
  have W: "slice idx1 lo hi = ys"
    using ll yl by (simp add: slice_def i1 m_def)
  let ?sv = "(if (hi - lo) mod 2 \<noteq> 0
          then deref idx1 (mid - 1) \<bind> (\<lambda>p. Some (tp lvl p))
          else deref idx1 mid \<bind> (\<lambda>m. deref idx1 (lo + max_element (tp lvl) (slice idx1 lo mid))
                 \<bind> (\<lambda>l. Some ((tp lvl m + tp lvl l) / 2))))"
  have mlen: "m \<le> length idx - lo" using lh by (simp add: m_def)
  have common: "1 \<le> m \<and> length (take k ys) = (m + 1) div 2 \<and> length (drop k ys) = m div 2
           \<and> (\<forall>p\<in>set (take k ys). \<forall>r\<in>set (drop k ys). key p \<le> key r)"
    using pt(2,3,4) m1 by (simp add: m_def)
  have so: "sort (map key ys) = sort (map key xs)" using pt(1) by (rule sort_mset_cong)
  show ?thesis
  proof (cases "odd m")
    case True
    from pt(5)[OF True] have o: "k - 1 = m div 2"
      "key (ys ! (k - 1)) = Max (key ` set (take k ys))"
      "key (ys ! (k - 1)) = sort (map key xs) ! ((m + 1) div 2 - 1)" by auto
    have kpos: "0 < k" using m1 by (simp add: k_def m_def; arith)
    have k1m: "k - 1 < m" using kpos km by simp
    have "mid - 1 = lo + (k - 1)" using midk kpos by simp
    then have rd: "idx1 ! (mid - 1) = ys ! (k - 1)" using nth1[OF k1m] by simp
    have inb: "mid - 1 < length idx1" using l1 lh midk km kpos by (simp add: m_def)
    have modm: "(hi - lo) mod 2 \<noteq> 0" using True unfolding m_def by presburger
    have "?sv = deref idx1 (mid - 1) \<bind> (\<lambda>p. Some (tp lvl p))"
      by (simp only: modm simp_thms if_True)
    then have sv: "?sv = Some (key (ys ! (k - 1)))"
      using inb rd by (simp add: deref_def key_def)
    have "\<forall>p\<in>set (take k ys). key p \<le> key (ys ! (k - 1))"
      unfolding o(2) by (simp add: Max_ge)
    then have "median_split tp t (sp(i := (sp i)(t := key (ys ! (k - 1))))) idx1 (lo, hi, lvl, i)"
      using common True o(2,3) so midE m_def key_def L0 R0 W
      by (intro median_splitI[where mid = mid and m = m and key = key and tp = tp and lvl = lvl
            and L = "take k ys" and R = "drop k ys" and W = ys and idx = idx1
            and s = "key (ys ! (k - 1))"]) simp_all
    then show ?thesis using sv by blast
  next
    case False
    then have ev: "even m" by simp
    from pt(6)[OF ev] have e: "k = m div 2" "k < m" "take k ys \<noteq> []"
      "key (ys ! k) = Min (key ` set (drop k ys))" by auto
    have rd: "idx1 ! mid = ys ! k" using nth1[OF e(2)] midk by simp
    have inb: "mid < length idx1" using l1 lh midk e(2) by (simp add: m_def)
    note mx = max_element_greatest[OF e(3), of key]
    have lt: "max_element key (take k ys) < k" using mx(1) yl km by simp
    then have ltm: "max_element key (take k ys) < m" using km by simp
    have rl: "idx1 ! (lo + max_element key (take k ys)) = take k ys ! max_element key (take k ys)"
      using nth1[OF ltm] lt by simp
    have inl: "lo + max_element key (take k ys) < length idx1"
      using l1 lh ltm by (simp add: m_def)
    let ?s = "(key (ys ! k) + Max (key ` set (take k ys))) / 2"
    have modm: "(hi - lo) mod 2 = 0" using ev unfolding m_def by presburger
    have "?sv = deref idx1 mid \<bind> (\<lambda>m. deref idx1 (lo + max_element key (take k ys))
                 \<bind> (\<lambda>l. Some ((key m + key l) / 2)))"
      by (simp only: modm simp_thms if_False L0 key_def)
    then have sv: "?sv = Some ?s"
      using inb inl rd rl mx(2) by (simp add: deref_def)
    have rne: "drop k ys \<noteq> []" using e(2) yl by simp
    have "Max (key ` set (take k ys)) \<le> Min (key ` set (drop k ys))"
      using common e(3) rne by (subst Max_le_iff; simp)
    then have ls: "\<forall>p\<in>set (take k ys). key p \<le> ?s"
    proof (intro ballI)
      fix p assume "p \<in> set (take k ys)"
      then have "key p \<le> Max (key ` set (take k ys))" by (simp add: Max_ge)
      moreover have "Max (key ` set (take k ys)) \<le> key (ys ! k)"
        using \<open>Max (key ` set (take k ys)) \<le> Min (key ` set (drop k ys))\<close> e(4) by simp
      ultimately show "key p \<le> ?s" by simp
    qed
    have "median_split tp t (sp(i := (sp i)(t := ?s))) idx1 (lo, hi, lvl, i)"
      using common ev e(4) ls midE m_def key_def L0 R0 W
      by (intro median_splitI[where mid = mid and m = m and key = key and tp = tp and lvl = lvl
            and L = "take k ys" and R = "drop k ys" and W = ys and idx = idx1
            and s = "(key (ys ! k) + Max (key ` set (take k ys))) / 2"])
         (simp_all add: add.commute)
    then show ?thesis using sv by blast
  qed
qed

subsection \<open>All calls of \<^verbatim>\<open>grow_subtree\<close>\<close>

lemma grow_calls_leaf: "D \<le> lvl \<Longrightarrow> grow_calls D lo hi lvl i = [(lo, hi, lvl, i)]"
  by (subst grow_calls.simps) simp

lemma grow_calls_internal:
  "lvl < D \<Longrightarrow> grow_calls D lo hi lvl i =
     (lo, hi, lvl, i) # grow_calls D lo (hi - (hi - lo) div 2) (lvl + 1) (2 * i + 1)
       @ grow_calls D (hi - (hi - lo) div 2) hi (lvl + 1) (2 * i + 2)"
  by (subst grow_calls.simps) simp

lemma grow_calls_range:
  "lo \<le> hi \<Longrightarrow> (a, b, l, j) \<in> set (grow_calls D lo hi lvl i) \<Longrightarrow>
     lo \<le> a \<and> a \<le> b \<and> b \<le> hi \<and> in_subtree i j \<and> lvl \<le> l"
proof (induction "D - lvl" arbitrary: lvl lo hi i)
  case 0
  then have "D \<le> lvl" by simp
  then show ?case using 0 in_subtree_refl by (simp add: grow_calls_leaf)
next
  case (Suc k)
  then have lt: "lvl < D" and k: "k = D - (lvl + 1)" by auto
  let ?mid = "hi - (hi - lo) div 2"
  have lm: "lo \<le> ?mid" "?mid \<le> hi" using Suc.prems(1) by auto
  from Suc.prems(2) consider "(a, b, l, j) = (lo, hi, lvl, i)"
    | "(a, b, l, j) \<in> set (grow_calls D lo ?mid (lvl + 1) (2 * i + 1))"
    | "(a, b, l, j) \<in> set (grow_calls D ?mid hi (lvl + 1) (2 * i + 2))"
    unfolding grow_calls_internal[OF lt] by auto
  then show ?case
  proof cases
    case 1
    then show ?thesis using Suc.prems(1) in_subtree_refl by simp
  next
    case 2
    from Suc.hyps(1)[OF k lm(1) 2]
    have h: "lo \<le> a" "a \<le> b" "b \<le> ?mid" "in_subtree (2 * i + 1) j" "lvl + 1 \<le> l" by auto
    have "in_subtree i j" using h(4) by (rule in_subtree_left)
    then show ?thesis using h lm by simp
  next
    case 3
    from Suc.hyps(1)[OF k lm(2) 3]
    have h: "?mid \<le> a" "a \<le> b" "b \<le> hi" "in_subtree (2 * i + 2) j" "lvl + 1 \<le> l" by auto
    have "in_subtree i j" using h(4) by (rule in_subtree_right)
    then show ?thesis using h lm by simp
  qed
qed

lemma median_split_transfer:
  assumes "take B idx' = take B idx" "b \<le> B" "a \<le> b" "sp' j t = sp j t"
      and "median_split tp t sp idx (a, b, l, j)"
  shows "median_split tp t sp' idx' (a, b, l, j)"
proof -
  let ?mid = "b - (b - a) div 2"
  have lm: "a \<le> ?mid" "?mid \<le> b" using assms(3) by auto
  have "slice idx' a ?mid = slice idx a ?mid" using assms(1) by (rule slice_cong_take) (use assms(2) in simp)
  moreover have "slice idx' ?mid b = slice idx ?mid b" using assms(1,2) by (rule slice_cong_take)
  ultimately have "mset (slice idx' a ?mid) = mset (slice idx a ?mid)"
    "mset (slice idx' ?mid b) = mset (slice idx ?mid b)" by simp_all
  then show ?thesis
    by (rule median_split_mset[where idx = idx and sp = sp and mid = ?mid])
       (use lm assms(4,5) in simp_all)
qed

lemma grow_subtree_median:
  fixes tp :: "nat \<Rightarrow> nat \<Rightarrow> real"
  assumes spec: "nth_element_spec f"
  shows "\<lbrakk>lo \<le> hi; hi \<le> length idx; lvl \<le> D; lvl < D \<longrightarrow> 2 ^ (D - lvl - 1) \<le> hi - lo\<rbrakk> \<Longrightarrow>
     \<exists>sp' idx'. grow_subtree f D tp t (sp, idx) lo hi lvl i = Some (sp', idx')
        \<and> (\<forall>a b l j. (a, b, l, j) \<in> set (grow_calls D lo hi lvl i) \<longrightarrow> l < D
               \<longrightarrow> median_split tp t sp' idx' (a, b, l, j))"
proof (induction "D - lvl" arbitrary: lvl sp idx lo hi i)
  case 0
  then have e: "lvl = D" by simp
  have n: "\<forall>a b l j. (a, b, l, j) \<in> set (grow_calls D lo hi lvl i) \<longrightarrow> \<not> l < D"
    using e by (simp add: grow_calls_leaf)
  have g: "grow_subtree f D tp t (sp, idx) lo hi lvl i = Some (sp, idx)"
    using e by (simp add: grow_subtree_leaf)
  from g n show ?case by blast
next
  case (Suc k)
  then have lt: "lvl < D" and k: "k = D - (lvl + 1)" by auto
  define idx1 where "idx1 = take lo idx @ f (tp lvl) ((hi - lo) div 2) (slice idx lo hi) @ drop hi idx"
  define mid where "mid = hi - (hi - lo) div 2"
  have sz: "2 ^ (D - lvl - 1) \<le> hi - lo" using Suc.prems(4) lt by simp
  have "(1::nat) \<le> 2 ^ (D - lvl - 1)" by simp
  then have m1: "1 \<le> hi - lo" using sz by linarith
  from median_split_root[OF spec Suc.prems(1,2) m1, of tp lvl t sp i, folded idx1_def mid_def]
  obtain s where sv: "(if (hi - lo) mod 2 \<noteq> 0
          then deref idx1 (mid - 1) \<bind> (\<lambda>p. Some (tp lvl p))
          else deref idx1 mid \<bind> (\<lambda>m. deref idx1 (lo + max_element (tp lvl) (slice idx1 lo mid))
                 \<bind> (\<lambda>l. Some ((tp lvl m + tp lvl l) / 2)))) = Some s"
    and root: "median_split tp t (sp(i := (sp i)(t := s))) idx1 (lo, hi, lvl, i)" by blast
  let ?sp1 = "sp(i := (sp i)(t := s))"
  have lm: "lo \<le> mid" "mid \<le> hi" using Suc.prems(1) by (auto simp: mid_def)
  have l1: "length idx1 = length idx"
  proof -
    have "length (slice idx lo hi) = hi - lo" using Suc.prems(2) by (rule slice_length)
    moreover have "(hi - lo) div 2 \<le> length (slice idx lo hi)" using calculation by simp
    moreover have "mset (f (tp lvl) ((hi - lo) div 2) (slice idx lo hi)) = mset (slice idx lo hi)"
      using spec calculation unfolding nth_element_spec_def by blast
    ultimately have "length (f (tp lvl) ((hi - lo) div 2) (slice idx lo hi)) = hi - lo"
      using mset_eq_length by fastforce
    then show ?thesis using Suc.prems(1,2) by (simp add: idx1_def)
  qed
  have ml1: "mid \<le> length idx1" using lm(2) Suc.prems(2) l1 by simp
  have szl: "lvl + 1 < D \<longrightarrow> 2 ^ (D - (lvl + 1) - 1) \<le> mid - lo"
    and szr: "lvl + 1 < D \<longrightarrow> 2 ^ (D - (lvl + 1) - 1) \<le> hi - mid"
  proof -
    {
      assume "lvl + 1 < D"
      then have "D - lvl - 1 = Suc (D - (lvl + 1) - 1)" by simp
      then have "2 * 2 ^ (D - (lvl + 1) - 1) \<le> hi - lo" using sz by simp
      then have "2 ^ (D - (lvl + 1) - 1) \<le> (hi - lo) div 2" by simp
    }
    then show "lvl + 1 < D \<longrightarrow> 2 ^ (D - (lvl + 1) - 1) \<le> mid - lo"
      and "lvl + 1 < D \<longrightarrow> 2 ^ (D - (lvl + 1) - 1) \<le> hi - mid"
      using Suc.prems(1) by (auto simp: mid_def)
  qed
  have lD: "lvl + 1 \<le> D" using lt by simp
  from Suc.hyps(1)[OF k lm(1) ml1 lD szl, of ?sp1 "2 * i + 1"]
  obtain sp2 idx2 where
    l: "grow_subtree f D tp t (?sp1, idx1) lo mid (lvl + 1) (2 * i + 1) = Some (sp2, idx2)"
    and lok: "\<forall>a b l j. (a, b, l, j) \<in> set (grow_calls D lo mid (lvl + 1) (2 * i + 1)) \<longrightarrow> l < D
               \<longrightarrow> median_split tp t sp2 idx2 (a, b, l, j)" by blast
  from grow_subtree_frame[OF spec lm(1) ml1 l]
  have L: "length idx2 = length idx1" "take lo idx2 = take lo idx1" "drop mid idx2 = drop mid idx1"
    "mset (slice idx2 lo mid) = mset (slice idx1 lo mid)"
    "\<forall>j t'. sp2 j t' \<noteq> ?sp1 j t' \<longrightarrow> t' = t \<and> in_subtree (2 * i + 1) j"
    by auto
  have hl2: "hi \<le> length idx2" using Suc.prems(2) l1 L(1) by simp
  from Suc.hyps(1)[OF k lm(2) hl2 lD szr, of sp2 "2 * i + 2"]
  obtain sp3 idx3 where
    r: "grow_subtree f D tp t (sp2, idx2) mid hi (lvl + 1) (2 * i + 2) = Some (sp3, idx3)"
    and rok: "\<forall>a b l j. (a, b, l, j) \<in> set (grow_calls D mid hi (lvl + 1) (2 * i + 2)) \<longrightarrow> l < D
               \<longrightarrow> median_split tp t sp3 idx3 (a, b, l, j)" by blast
  from grow_subtree_frame[OF spec lm(2) hl2 r]
  have R: "length idx3 = length idx2" "take mid idx3 = take mid idx2" "drop hi idx3 = drop hi idx2"
    "mset (slice idx3 mid hi) = mset (slice idx2 mid hi)"
    "\<forall>j t'. sp3 j t' \<noteq> sp2 j t' \<longrightarrow> t' = t \<and> in_subtree (2 * i + 2) j"
    by auto
  have e: "grow_subtree f D tp t (sp, idx) lo hi lvl i = Some (sp3, idx3)"
    unfolding grow_subtree_internal[OF lt] Let_def idx1_def[symmetric] mid_def[symmetric]
    by (simp only: sv l r Option.bind.simps)
  have "sp3 i t = sp2 i t" using R(5) not_in_subtree_child(2)[of i] by blast
  moreover have "sp2 i t = ?sp1 i t" using L(5) not_in_subtree_child(1)[of i] by blast
  ultimately have spi: "sp3 i t = ?sp1 i t" by simp
  have rootok: "median_split tp t sp3 idx3 (lo, hi, lvl, i)"
  proof (rule median_split_mset[where idx = idx1 and sp = ?sp1 and mid = mid])
    have "slice idx3 lo mid = slice idx2 lo mid" using R(2) by (rule slice_cong_take) simp
    then show "mset (slice idx3 lo mid) = mset (slice idx1 lo mid)" using L(4) by simp
    have "slice idx2 mid hi = slice idx1 mid hi" using L(3) by (rule slice_cong_drop) simp
    then show "mset (slice idx3 mid hi) = mset (slice idx1 mid hi)" using R(4) by simp
    show "mid = hi - (hi - lo) div 2" by (simp add: mid_def)
    show "lo \<le> mid" "mid \<le> hi" by (rule lm)+
    show "sp3 i t = ?sp1 i t" by (rule spi)
    show "median_split tp t ?sp1 idx1 (lo, hi, lvl, i)" by (rule root)
  qed
  have all: "\<forall>a b l j. (a, b, l, j) \<in> set (grow_calls D lo hi lvl i) \<longrightarrow> l < D
               \<longrightarrow> median_split tp t sp3 idx3 (a, b, l, j)"
  proof (intro allI impI)
    fix a b l j assume c: "(a, b, l, j) \<in> set (grow_calls D lo hi lvl i)" and lD': "l < D"
    from c consider "(a, b, l, j) = (lo, hi, lvl, i)"
      | "(a, b, l, j) \<in> set (grow_calls D lo mid (lvl + 1) (2 * i + 1))"
      | "(a, b, l, j) \<in> set (grow_calls D mid hi (lvl + 1) (2 * i + 2))"
      unfolding grow_calls_internal[OF lt] mid_def by auto
    then show "median_split tp t sp3 idx3 (a, b, l, j)"
    proof cases
      case 1
      then show ?thesis using rootok by simp
    next
      case 2
      from grow_calls_range[OF lm(1) 2]
      have rg: "a \<le> b" "b \<le> mid" "in_subtree (2 * i + 1) j" by auto
      have "\<not> in_subtree (2 * i + 2) j" using rg(3) in_subtree_disjoint by blast
      then have spj: "sp3 j t = sp2 j t" using R(5) by blast
      from lok 2 lD' have ms2: "median_split tp t sp2 idx2 (a, b, l, j)" by blast
      show ?thesis
      proof (rule median_split_transfer[where idx = idx2 and sp = sp2 and B = mid])
        show "take mid idx3 = take mid idx2" by (rule R(2))
        show "b \<le> mid" by (rule rg(2))
        show "a \<le> b" by (rule rg(1))
        show "sp3 j t = sp2 j t" by (rule spj)
        show "median_split tp t sp2 idx2 (a, b, l, j)" by (rule ms2)
      qed
    next
      case 3
      then show ?thesis using rok lD' by blast
    qed
  qed
  from e all show ?case by blast
qed

subsection \<open>Growing all trees\<close>

lemma slice_whole: "slice xs 0 (length xs) = xs"
  by (simp add: slice_def)

lemma grow_tree_step:
  assumes spec: "nth_element_spec f"
      and sz: "depth s = 0 \<or> 2 ^ (depth s - 1) \<le> n_samples s"
  shows "\<exists>sp' idx'. grow_tree f t s
            = Some (s\<lparr>split_points := sp', tree_leaves := (tree_leaves s)[t := idx']\<rparr>)
        \<and> mset idx' = mset [0..<n_samples s]
        \<and> (\<forall>a b l j. (a, b, l, j) \<in> set (grow_calls (depth s) 0 (n_samples s) 0 0) \<longrightarrow> l < depth s
               \<longrightarrow> median_split (tree_projections_of s t) t sp' idx' (a, b, l, j))
        \<and> (\<forall>j t'. t' \<noteq> t \<longrightarrow> sp' j t' = split_points s j t')"
proof -
  let ?n = "n_samples s" and ?D = "depth s" and ?tp = "tree_projections_of s t"
  have h: "0 \<le> ?n" "?n \<le> length [0..<?n]" "0 \<le> ?D" "0 < ?D \<longrightarrow> 2 ^ (?D - 0 - 1) \<le> ?n - 0"
    using sz by auto
  from grow_subtree_median[OF spec h, of ?tp t "split_points s" 0]
  obtain sp' idx' where g: "grow_subtree f ?D ?tp t (split_points s, [0..<?n]) 0 ?n 0 0 = Some (sp', idx')"
    and ok: "\<forall>a b l j. (a, b, l, j) \<in> set (grow_calls ?D 0 ?n 0 0) \<longrightarrow> l < ?D
               \<longrightarrow> median_split ?tp t sp' idx' (a, b, l, j)" by blast
  from grow_subtree_frame[OF spec h(1,2) g]
  have fr: "length idx' = length [0..<?n]" "mset (slice idx' 0 ?n) = mset (slice [0..<?n] 0 ?n)"
    "\<forall>j t'. sp' j t' \<noteq> split_points s j t' \<longrightarrow> t' = t \<and> in_subtree 0 j" by auto
  have "slice idx' 0 ?n = idx'" using fr(1) slice_whole[of idx'] by simp
  moreover have "slice [0..<?n] 0 ?n = [0..<?n]" using slice_whole[of "[0..<?n]"] by simp
  ultimately have ms: "mset idx' = mset [0..<?n]" using fr(2) by simp
  have oth: "\<forall>j t'. t' \<noteq> t \<longrightarrow> sp' j t' = split_points s j t'" using fr(3) by blast
  have e: "grow_tree f t s = Some (s\<lparr>split_points := sp', tree_leaves := (tree_leaves s)[t := idx']\<rparr>)"
    unfolding grow_tree_def Let_def tree_projections_of_def[symmetric] using g by simp
  from e ms ok oth show ?thesis by blast
qed

lemma tree_projections_of_update [simp]:
  "tree_projections_of (s\<lparr>split_points := sp, tree_leaves := lv\<rparr>) t = tree_projections_of s t"
  by (simp add: tree_projections_of_def)

lemma grow_trees_loop:
  assumes spec: "nth_element_spec f"
      and sz: "depth s = 0 \<or> 2 ^ (depth s - 1) \<le> n_samples s"
  shows "m \<le> length (tree_leaves s) \<Longrightarrow>
     \<exists>sp lv. fold_option (grow_tree f) [0..<m] s = Some (s\<lparr>split_points := sp, tree_leaves := lv\<rparr>)
        \<and> length lv = length (tree_leaves s)
        \<and> (\<forall>t<m. mset (lv ! t) = mset [0..<n_samples s]
              \<and> (\<forall>a b l j. (a, b, l, j) \<in> set (grow_calls (depth s) 0 (n_samples s) 0 0) \<longrightarrow> l < depth s
               \<longrightarrow> median_split (tree_projections_of s t) t sp (lv ! t) (a, b, l, j)))"
proof (induction m)
  case 0
  have "s = s\<lparr>split_points := split_points s, tree_leaves := tree_leaves s\<rparr>" by simp
  then show ?case by (metis fold_option.simps(1) not_less_zero upt_0)
next
  case (Suc m)
  then obtain sp lv where ih:
    "fold_option (grow_tree f) [0..<m] s = Some (s\<lparr>split_points := sp, tree_leaves := lv\<rparr>)"
    "length lv = length (tree_leaves s)"
    "\<forall>t<m. mset (lv ! t) = mset [0..<n_samples s]
              \<and> (\<forall>a b l j. (a, b, l, j) \<in> set (grow_calls (depth s) 0 (n_samples s) 0 0) \<longrightarrow> l < depth s
               \<longrightarrow> median_split (tree_projections_of s t) t sp (lv ! t) (a, b, l, j))"
    by auto
  let ?s = "s\<lparr>split_points := sp, tree_leaves := lv\<rparr>"
  have sz': "depth ?s = 0 \<or> 2 ^ (depth ?s - 1) \<le> n_samples ?s" using sz by simp
  from grow_tree_step[OF spec sz', of m]
  obtain sp' idx' where st:
    "grow_tree f m ?s = Some (s\<lparr>split_points := sp', tree_leaves := lv[m := idx']\<rparr>)"
    "mset idx' = mset [0..<n_samples s]"
    "\<forall>a b l j. (a, b, l, j) \<in> set (grow_calls (depth s) 0 (n_samples s) 0 0) \<longrightarrow> l < depth s
               \<longrightarrow> median_split (tree_projections_of s m) m sp' idx' (a, b, l, j)"
    "\<forall>j t'. t' \<noteq> m \<longrightarrow> sp' j t' = sp j t'"
    by auto
  have ml: "m < length lv" using Suc.prems ih(2) by simp
  have e: "fold_option (grow_tree f) [0..<Suc m] s
             = Some (s\<lparr>split_points := sp', tree_leaves := lv[m := idx']\<rparr>)"
    using ih(1) st(1) by (simp add: fold_option_append)
  have all: "\<forall>t<Suc m. mset (lv[m := idx'] ! t) = mset [0..<n_samples s]
              \<and> (\<forall>a b l j. (a, b, l, j) \<in> set (grow_calls (depth s) 0 (n_samples s) 0 0) \<longrightarrow> l < depth s
               \<longrightarrow> median_split (tree_projections_of s t) t sp' (lv[m := idx'] ! t) (a, b, l, j))"
  proof (intro allI impI)
    fix t assume "t < Suc m"
    then consider "t < m" | "t = m" by linarith
    then show "mset (lv[m := idx'] ! t) = mset [0..<n_samples s]
              \<and> (\<forall>a b l j. (a, b, l, j) \<in> set (grow_calls (depth s) 0 (n_samples s) 0 0) \<longrightarrow> l < depth s
               \<longrightarrow> median_split (tree_projections_of s t) t sp' (lv[m := idx'] ! t) (a, b, l, j))"
    proof cases
      case 1
      then have tm: "t \<noteq> m" by simp
      have same: "lv[m := idx'] ! t = lv ! t" using tm by simp
      have col: "\<And>j. sp' j t = sp j t" using st(4) tm by simp
      have "\<And>c. median_split (tree_projections_of s t) t sp' (lv ! t) c
                 = median_split (tree_projections_of s t) t sp (lv ! t) c"
        unfolding median_split_def by (simp add: col)
      then show ?thesis unfolding same using ih(3) 1 by simp
    next
      case 2
      then show ?thesis using st(2,3) ml by simp
    qed
  qed
  from e all ih(2) show ?case
    by (metis length_list_update)
qed

subsection \<open>All leaf offsets\<close>

lemma count_first_leaf_indices_total: "\<exists>lfi. count_first_leaf_indices n d = Some lfi"
proof -
  from count_leaf_sizes_char[of 0 d n "[]"]
  obtain szs where "count_leaf_sizes n 0 d [] = Some szs" by auto
  then show ?thesis by (simp add: count_first_leaf_indices_def)
qed

lemma count_first_leaf_indices_all_loop:
  "\<exists>new. fold_option (\<lambda>d indices. count_first_leaf_indices n d \<bind> (\<lambda>idx. Some (indices @ [idx])))
             [0..<m] acc = Some (acc @ new)
         \<and> length new = m \<and> (\<forall>d<m. count_first_leaf_indices n d = Some (new ! d))"
proof (induction m)
  case 0
  then show ?case by simp
next
  case (Suc m)
  then obtain new where ih:
    "fold_option (\<lambda>d indices. count_first_leaf_indices n d \<bind> (\<lambda>idx. Some (indices @ [idx])))
             [0..<m] acc = Some (acc @ new)"
    "length new = m" "\<forall>d<m. count_first_leaf_indices n d = Some (new ! d)" by blast
  obtain lfi where l: "count_first_leaf_indices n m = Some lfi"
    using count_first_leaf_indices_total by blast
  have e: "fold_option (\<lambda>d indices. count_first_leaf_indices n d \<bind> (\<lambda>idx. Some (indices @ [idx])))
             [0..<Suc m] acc = Some (acc @ (new @ [lfi]))"
    using ih(1) l by (simp add: fold_option_append)
  have "\<forall>d<Suc m. count_first_leaf_indices n d = Some ((new @ [lfi]) ! d)"
    using ih(2,3) l by (auto simp: nth_append less_Suc_eq)
  then show ?case using e ih(2) by (metis length_append_singleton)
qed

lemma count_first_leaf_indices_all_fresh:
  "\<exists>ai lfi. count_first_leaf_indices_all [] n D = Some ai \<and> deref ai D = Some lfi
       \<and> count_first_leaf_indices n D = Some lfi"
proof -
  from count_first_leaf_indices_all_loop[of n "D + 1" "[]"]
  obtain new where n: "count_first_leaf_indices_all [] n D = Some new" "length new = D + 1"
    "\<forall>d<D + 1. count_first_leaf_indices n d = Some (new ! d)"
    by (auto simp: count_first_leaf_indices_all_def)
  have "deref new D = Some (new ! D)" using n(2) by (simp add: deref_def)
  moreover have "count_first_leaf_indices n D = Some (new ! D)" using n(3) by simp
  ultimately show ?thesis using n(1) by blast
qed

lemma grow_result:
  fixes rho :: real
  assumes spec: "nth_element_spec f" and sz: "D = 0 \<or> 2 ^ (D - 1) \<le> n"
  shows "\<exists>s'. grow f ud nd un (Mrpt_new data rows n k0) T D rho = Some s'
      \<and> n_trees s' = T \<and> depth s' = D \<and> n_samples s' = n \<and> dim s' = rows \<and> density s' = rho
      \<and> X s' = data \<and> n_pool s' = T * D \<and> n_array s' = 2 ^ (D + 1)
      \<and> grown s'
      \<and> (\<forall>t<T. \<forall>a b l j. (a, b, l, j) \<in> set (grow_calls D 0 n 0 0) \<longrightarrow> l < D
            \<longrightarrow> median_split (tree_projections_of s' t) t (split_points s') (tree_leaves s' ! t)
                  (a, b, l, j))"
proof -
  obtain ai lfi where ai: "count_first_leaf_indices_all [] n D = Some ai" "deref ai D = Some lfi"
    "count_first_leaf_indices n D = Some lfi"
    using count_first_leaf_indices_all_fresh by blast
  define s1 where "s1 = (Mrpt_new data rows n k0)\<lparr>n_trees := T, depth := D, density := rho,
                 n_pool := T * D, n_array := 2 ^ (D + 1)\<rparr>"
  define s2 where "s2 = (if rho < 1
                then s1\<lparr>sparse_random_matrix := build_sparse_random_matrix ud nd (T * D) rows rho\<rparr>
                else s1\<lparr>dense_random_matrix := build_dense_random_matrix nd (T * D) rows\<rparr>)"
  define s4 where "s4 = s2\<lparr>split_points := un, tree_leaves := replicate T [],
                           leaf_first_indices_all := ai, leaf_first_indices := lfi\<rparr>"
  have f1: "n_trees s1 = T" "depth s1 = D" "n_samples s1 = n" "dim s1 = rows" "density s1 = rho"
    "X s1 = data" "n_pool s1 = T * D" "n_array s1 = 2 ^ (D + 1)" "leaf_first_indices_all s1 = []"
    by (simp_all add: s1_def Mrpt_new_def)
  have f2: "n_trees s2 = T" "depth s2 = D" "n_samples s2 = n" "dim s2 = rows" "density s2 = rho"
    "X s2 = data" "n_pool s2 = T * D" "n_array s2 = 2 ^ (D + 1)" "leaf_first_indices_all s2 = []"
    using f1 by (simp_all add: s2_def)
  have f4: "n_trees s4 = T" "depth s4 = D" "n_samples s4 = n" "dim s4 = rows" "density s4 = rho"
    "X s4 = data" "n_pool s4 = T * D" "n_array s4 = 2 ^ (D + 1)"
    "tree_leaves s4 = replicate T []" "leaf_first_indices s4 = lfi"
    using f2 by (simp_all add: s4_def)
  have e: "grow f ud nd un (Mrpt_new data rows n k0) T D rho = fold_option (grow_tree f) [0..<T] s4"
  proof (cases "rho < 1")
    case True
    then show ?thesis
      using ai(1,2) by (simp add: grow_def Let_def s4_def s2_def s1_def Mrpt_new_def)
  next
    case False
    then show ?thesis
      using ai(1,2) by (simp add: grow_def Let_def s4_def s2_def s1_def Mrpt_new_def)
  qed
  have sz4: "depth s4 = 0 \<or> 2 ^ (depth s4 - 1) \<le> n_samples s4" using sz f4 by simp
  have tl: "T \<le> length (tree_leaves s4)" using f4 by simp
  from grow_trees_loop[OF spec sz4 tl]
  obtain sp lv where r: "fold_option (grow_tree f) [0..<T] s4
                           = Some (s4\<lparr>split_points := sp, tree_leaves := lv\<rparr>)"
    "length lv = length (tree_leaves s4)"
    "\<forall>t<T. mset (lv ! t) = mset [0..<n_samples s4]
              \<and> (\<forall>a b l j. (a, b, l, j) \<in> set (grow_calls (depth s4) 0 (n_samples s4) 0 0) \<longrightarrow> l < depth s4
               \<longrightarrow> median_split (tree_projections_of s4 t) t sp (lv ! t) (a, b, l, j))"
    by blast
  let ?s = "s4\<lparr>split_points := sp, tree_leaves := lv\<rparr>"
  have g: "grown ?s" using r(2,3) f4 ai(3) by (simp add: grown_def)
  have ms: "\<forall>t<T. \<forall>a b l j. (a, b, l, j) \<in> set (grow_calls D 0 n 0 0) \<longrightarrow> l < D
            \<longrightarrow> median_split (tree_projections_of ?s t) t (split_points ?s) (tree_leaves ?s ! t)
                  (a, b, l, j)"
    using r(3) f4 by simp
  show ?thesis
    apply (rule exI[of _ ?s])
    using e r(1) f4 g ms by simp
qed

lemma sort_nth_nth_element_spec: "nth_element_spec sort_nth"
  unfolding nth_element_spec_def sort_nth_def
proof (intro allI impI conjI)
  fix key :: "'a \<Rightarrow> real" and nth_pos :: nat and xs :: "'a list"
  show "mset (sort_key key xs) = mset xs" by simp
  fix i j assume h: "i \<le> nth_pos \<and> nth_pos \<le> j \<and> j < length xs"
  have "sorted (map key (sort_key key xs))" by simp
  then have "map key (sort_key key xs) ! i \<le> map key (sort_key key xs) ! j"
    using h by (intro sorted_nth_mono) auto
  then show "key (sort_key key xs ! i) \<le> key (sort_key key xs ! j)" using h by simp
qed

text \<open>
  Claim C1, the failing input. With one point and depth 2, node 2 is an internal node that
  \<^verbatim>\<open>grow_subtree\<close> reaches with the empty range \<open>[1, 1)\<close>. The count 0 is even, so the even
  branch dereferences \<^verbatim>\<open>mid\<close>, which is the end of the index vector, and no split value that
  obeys the median rule is stored: \<^verbatim>\<open>grow\<close> has no result there.
\<close>

theorem grow_empty_node_counterexample:
  "(1, 1, 1, 2) \<in> set (internal_calls 2 1)
   \<and> grow sort_nth ex_draw ex_draw ex_draw (Mrpt_new ex_X 1 1 0) 1 2 1 = None"
proof -
  have a: "(1, 1, 1, 2) \<in> set (internal_calls 2 1)" by code_simp
  have b: "grow sort_nth ex_draw ex_draw ex_draw (Mrpt_new ex_X 1 1 0) 1 2 1 = None"
    by code_simp
  from a b show ?thesis by blast
qed

text \<open>
  The median rule at the nodes that hold points. Whenever no internal node is empty, that
  is, when the depth is 0 or \<open>2 ^ (depth - 1) \<le> n_samples\<close>, \<^verbatim>\<open>grow\<close> on a freshly constructed
  index completes, and for every tree and every internal node reached by \<^verbatim>\<open>grow_subtree\<close>
  the median rule holds in the finished tree: the node has \<open>m \<ge> 1\<close> points; if \<open>m\<close> is odd the
  stored split value is the projection of the \<open>\<lceil>m/2\<rceil>\<close>-th smallest point, the largest
  projection in the left child; if \<open>m\<close> is even it is the mean of the largest projection in
  the left child and the smallest in the right child; and every point of the left child has
  a projection not above the split value (and not above any projection in the right child).
  \<^verbatim>\<open>std::nth_element\<close> is any function meeting its postcondition.
\<close>

theorem grow_median_rule:
  fixes rho :: real
  assumes "nth_element_spec f" and "D = 0 \<or> 2 ^ (D - 1) \<le> n"
  shows "\<exists>s'. grow f ud nd un (Mrpt_new data rows n k0) T D rho = Some s'
        \<and> (\<forall>t<T. \<forall>c\<in>set (internal_calls D n).
              median_split (tree_projections_of s' t) t (split_points s') (tree_leaves s' ! t) c)"
proof -
  from grow_result[OF assms, of ud nd un data rows k0 T rho]
  obtain s' where r: "grow f ud nd un (Mrpt_new data rows n k0) T D rho = Some s'"
    "\<forall>t<T. \<forall>a b l j. (a, b, l, j) \<in> set (grow_calls D 0 n 0 0) \<longrightarrow> l < D
            \<longrightarrow> median_split (tree_projections_of s' t) t (split_points s') (tree_leaves s' ! t)
                  (a, b, l, j)" by blast
  have "\<forall>t<T. \<forall>c\<in>set (internal_calls D n).
              median_split (tree_projections_of s' t) t (split_points s') (tree_leaves s' ! t) c"
  proof (intro allI impI ballI)
    fix t c assume t: "t < T" and c: "c \<in> set (internal_calls D n)"
    obtain a b l j where cc: "c = (a, b, l, j)" by (cases c) auto
    have "(a, b, l, j) \<in> set (grow_calls D 0 n 0 0)" "l < D"
      using c cc by (auto simp: internal_calls_def)
    then show "median_split (tree_projections_of s' t) t (split_points s') (tree_leaves s' ! t) c"
      using r(2) t cc by blast
  qed
  with r(1) show ?thesis by blast
qed

theorem grow_median_rule_witness:
  "nth_element_spec (sort_nth :: (nat \<Rightarrow> real) \<Rightarrow> nat \<Rightarrow> nat list \<Rightarrow> nat list)
   \<and> map_option (\<lambda>s. (split_points s 0 0, split_points s 1 0, split_points s 2 0, tree_leaves s))
        (grow sort_nth ex_draw ex_draw ex_draw (Mrpt_new ex_X 1 5 0) 1 2 1)
       = Some (2, 1, 7 / 2, [[0, 1, 2, 3, 4]])"
proof -
  have s: "nth_element_spec (sort_nth :: (nat \<Rightarrow> real) \<Rightarrow> nat \<Rightarrow> nat list \<Rightarrow> nat list)"
    by (rule sort_nth_nth_element_spec)
  have h: "(2::nat) = 0 \<or> 2 ^ (2 - 1) \<le> (5::nat)" by simp
  have e: "map_option (\<lambda>s. (split_points s 0 0, split_points s 1 0, split_points s 2 0, tree_leaves s))
        (grow sort_nth ex_draw ex_draw ex_draw (Mrpt_new ex_X 1 5 0) 1 2 1)
       = Some (2, 1, 7 / 2, [[0, 1, 2, 3, 4]])"
    by code_simp
  from grow_median_rule[OF s h, of ex_draw ex_draw ex_draw ex_X 1 0 1 1] s e
  show ?thesis by simp
qed

section \<open>The shape of the grown trees\<close>

subsection \<open>The leaves of a tree and the leaf offsets\<close>







subsection \<open>When growing reads past the end\<close>


lemma grow_fresh_unfold:
  fixes rho :: real
  shows "\<exists>s4. grow f ud nd un (Mrpt_new data rows n k0) T D rho
                = fold_option (grow_tree f) [0..<T] s4
      \<and> n_trees s4 = T \<and> depth s4 = D \<and> n_samples s4 = n \<and> tree_leaves s4 = replicate T []
      \<and> count_first_leaf_indices n D = Some (leaf_first_indices s4)
      \<and> X s4 = data \<and> dim s4 = rows \<and> density s4 = rho \<and> n_pool s4 = T * D
      \<and> n_array s4 = 2 ^ (D + 1)
      \<and> (rho < 1 \<longrightarrow> sparse_random_matrix s4
                          = build_sparse_random_matrix ud nd (T * D) rows rho)
      \<and> recall_level s4 = - 1"
proof -
  obtain ai lfi where ai: "count_first_leaf_indices_all [] n D = Some ai" "deref ai D = Some lfi"
    "count_first_leaf_indices n D = Some lfi"
    using count_first_leaf_indices_all_fresh by blast
  define s1 where "s1 = (Mrpt_new data rows n k0)\<lparr>n_trees := T, depth := D, density := rho,
                 n_pool := T * D, n_array := 2 ^ (D + 1)\<rparr>"
  define s2 where "s2 = (if rho < 1
                then s1\<lparr>sparse_random_matrix := build_sparse_random_matrix ud nd (T * D) rows rho\<rparr>
                else s1\<lparr>dense_random_matrix := build_dense_random_matrix nd (T * D) rows\<rparr>)"
  define s4 where "s4 = s2\<lparr>split_points := un, tree_leaves := replicate T [],
                           leaf_first_indices_all := ai, leaf_first_indices := lfi\<rparr>"
  have f1: "n_trees s1 = T" "depth s1 = D" "n_samples s1 = n" "dim s1 = rows" "density s1 = rho"
    "X s1 = data" "n_pool s1 = T * D" "n_array s1 = 2 ^ (D + 1)" "recall_level s1 = - 1"
    by (simp_all add: s1_def Mrpt_new_def)
  have f2: "n_trees s2 = T" "depth s2 = D" "n_samples s2 = n" "dim s2 = rows" "density s2 = rho"
    "X s2 = data" "n_pool s2 = T * D" "n_array s2 = 2 ^ (D + 1)"
    "rho < 1 \<longrightarrow> sparse_random_matrix s2 = build_sparse_random_matrix ud nd (T * D) rows rho"
    "recall_level s2 = - 1"
    using f1 by (simp_all add: s2_def)
  have f4: "n_trees s4 = T" "depth s4 = D" "n_samples s4 = n"
    "tree_leaves s4 = replicate T []" "leaf_first_indices s4 = lfi"
    "dim s4 = rows" "density s4 = rho" "X s4 = data" "n_pool s4 = T * D"
    "n_array s4 = 2 ^ (D + 1)"
    "rho < 1 \<longrightarrow> sparse_random_matrix s4 = build_sparse_random_matrix ud nd (T * D) rows rho"
    "recall_level s4 = - 1"
    using f2 by (simp_all add: s4_def)
  have e: "grow f ud nd un (Mrpt_new data rows n k0) T D rho = fold_option (grow_tree f) [0..<T] s4"
  proof (cases "rho < 1")
    case True
    then show ?thesis
      using ai(1,2) by (simp add: grow_def Let_def s4_def s2_def s1_def Mrpt_new_def)
  next
    case False
    then show ?thesis
      using ai(1,2) by (simp add: grow_def Let_def s4_def s2_def s1_def Mrpt_new_def)
  qed
  show ?thesis using e f4 ai(3) by auto
qed



subsection \<open>Leaf ranges and leaf offsets\<close>









section \<open>Persistence\<close>

subsection \<open>Reading back what was written\<close>

lemma read_floats_written: "read_floats (length vs) (map Float32 vs @ fd) = Some (vs, fd)"
  by (induction vs) simp_all

lemma read_nats_written:
  "read_nats (length ps) (map (\<lambda>p. Int32 (int p)) ps @ fd) = Some (ps, fd)"
  by (induction ps) simp_all

lemma read_nat_written: "read_nat (Int32 (int n) # fd) = Some (n, fd)"
  by simp

lemma read_leaves_written:
  "read_leaves (length ls)
     (concat (map (\<lambda>leaf. Int32 (int (length leaf)) # map (\<lambda>p. Int32 (int p)) leaf) ls) @ fd)
     = Some (ls, fd)"
  by (induction ls) (simp_all add: read_nats_written)

lemma read_triplets_written:
  "read_triplets (length ts)
     (concat (map (\<lambda>(row, col, val). [Int32 (int row), Int32 (int col), Float32 val]) ts) @ fd)
     = Some (ts, fd)"
  by (induction ts) (simp_all add: case_prod_beta)

lemma save_leaves_loop:
  "m \<le> length tls \<Longrightarrow>
   fold_option (\<lambda>i fd. deref tls i \<bind>
                  (\<lambda>leaf. Some (fd @ Int32 (int (length leaf)) # map (\<lambda>p. Int32 (int p)) leaf)))
     [0..<m] acc
   = Some (acc @ concat (map (\<lambda>leaf. Int32 (int (length leaf)) # map (\<lambda>p. Int32 (int p)) leaf)
                           (take m tls)))"
proof (induction m)
  case 0
  then show ?case by simp
next
  case (Suc m)
  then have m: "m < length tls" by simp
  then have t: "take (Suc m) tls = take m tls @ [tls ! m]" by (simp add: take_Suc_conv_app_nth)
  show ?case using Suc m unfolding t by (simp add: fold_option_append deref_def)
qed

lemma concat_rows_length:
  "length (concat (map (\<lambda>t. map (g t) [0..<A]) [0..<T])) = T * A"
  by (induction T) simp_all

lemma concat_rows_nth:
  "i < A \<Longrightarrow> t < T \<Longrightarrow> concat (map (\<lambda>t. map (g t) [0..<A]) [0..<T]) ! (t * A + i) = g t i"
proof (induction T)
  case 0
  then show ?case by simp
next
  case (Suc T)
  show ?case
  proof (cases "t < T")
    case True
    then have "t * A + i < T * A"
      using Suc.prems(1) by (metis add.commute mult.commute mult_Suc_right nat_add_left_cancel_less
          Suc_leI mult_le_mono1 less_le_trans add_less_cancel_left)
    then show ?thesis using Suc True by (simp add: nth_append concat_rows_length)
  next
    case False
    then have "t = T" using Suc.prems(2) by simp
    then show ?thesis using Suc.prems(1) by (simp add: nth_append concat_rows_length)
  qed
qed

subsection \<open>Stored entries in row-major order\<close>

lemma insert_triplet_set:
  "b \<in> set (insert_triplet t ts) \<Longrightarrow>
     \<exists>b'\<in>set (t # ts). fst b = fst b' \<and> fst (snd b) = fst (snd b')"
proof (induction ts)
  case Nil
  then show ?case by simp
next
  case (Cons a ts)
  obtain r c v where t: "t = (r, c, v)" by (cases t) auto
  obtain r' c' v' where a: "a = (r', c', v')" by (cases a) auto
  show ?case using Cons unfolding t a by (auto split: if_splits)
qed

lemma insert_triplet_row_major: "row_major ts \<Longrightarrow> row_major (insert_triplet t ts)"
proof (induction ts)
  case Nil
  then show ?case by (simp add: row_major_def)
next
  case (Cons a ts)
  obtain r c v where t: "t = (r, c, v)" by (cases t) auto
  obtain r' c' v' where a: "a = (r', c', v')" by (cases a) auto
  have rm: "row_major ts" using Cons.prems by (simp add: row_major_def)
  have hd: "\<forall>b\<in>set ts. r' < fst b \<or> (r' = fst b \<and> c' < fst (snd b))"
    using Cons.prems by (simp add: row_major_def a)
  consider "r = r' \<and> c = c'" | "\<not> (r = r' \<and> c = c')" "r < r' \<or> (r = r' \<and> c < c')"
    | "\<not> (r = r' \<and> c = c')" "\<not> (r < r' \<or> (r = r' \<and> c < c'))" by blast
  then show ?case
  proof cases
    case 1
    then show ?thesis using Cons.prems unfolding t a by (simp add: row_major_def)
  next
    case 2
    then have "\<forall>b\<in>set ts. r < fst b \<or> (r = fst b \<and> c < fst (snd b))" using hd by auto
    then show ?thesis using 2 Cons.prems unfolding t a by (auto simp: row_major_def)
  next
    case 3
    then have lt: "r' < r \<or> (r' = r \<and> c' < c)" by auto
    have e: "insert_triplet t (a # ts) = a # insert_triplet t ts" using 3 unfolding t a by auto
    have "\<forall>b\<in>set (insert_triplet t ts). r' < fst b \<or> (r' = fst b \<and> c' < fst (snd b))"
    proof
      fix b assume "b \<in> set (insert_triplet t ts)"
      from insert_triplet_set[OF this]
      obtain b' where "b' \<in> set (t # ts)" "fst b = fst b'" "fst (snd b) = fst (snd b')"
        by blast
      then show "r' < fst b \<or> (r' = fst b \<and> c' < fst (snd b))"
        using hd lt t by auto
    qed
    then show ?thesis unfolding e using Cons.IH[OF rm] by (simp add: row_major_def a)
  qed
qed

lemma setFromTriplets_row_major: "row_major (setFromTriplets ts)"
proof -
  have "row_major acc \<Longrightarrow> row_major (fold insert_triplet ts acc)" for acc
    by (induction ts arbitrary: acc) (simp_all add: insert_triplet_row_major)
  then show ?thesis unfolding setFromTriplets_def by (simp add: row_major_def)
qed

lemma insert_triplet_last:
  "\<forall>b\<in>set acc. fst b < fst t \<or> (fst b = fst t \<and> fst (snd b) < fst (snd t)) \<Longrightarrow>
     insert_triplet t acc = acc @ [t]"
proof (induction acc)
  case Nil
  then show ?case by simp
next
  case (Cons a acc)
  obtain r c v where t: "t = (r, c, v)" by (cases t) auto
  obtain r' c' v' where a: "a = (r', c', v')" by (cases a) auto
  show ?case using Cons unfolding t a by auto
qed

lemma fold_insert_row_major:
  "row_major (acc @ ts) \<Longrightarrow> fold insert_triplet ts acc = acc @ ts"
proof (induction ts arbitrary: acc)
  case Nil
  then show ?case by simp
next
  case (Cons t ts)
  have "\<forall>b\<in>set acc. fst b < fst t \<or> (fst b = fst t \<and> fst (snd b) < fst (snd t))"
    using Cons.prems by (auto simp: row_major_def sorted_wrt_append)
  then have i: "insert_triplet t acc = acc @ [t]" by (rule insert_triplet_last)
  have "row_major ((acc @ [t]) @ ts)" using Cons.prems by simp
  from Cons.IH[OF this] show ?case using i by simp
qed

lemma setFromTriplets_stored: "row_major ts \<Longrightarrow> setFromTriplets ts = ts"
  unfolding setFromTriplets_def using fold_insert_row_major[of "[]" ts] by simp

subsection \<open>The state after growing\<close>

lemma grow_tree_frame:
  "grow_tree f t s = Some s1 \<Longrightarrow>
     \<exists>sp idx. s1 = s\<lparr>split_points := sp, tree_leaves := (tree_leaves s)[t := idx]\<rparr>"
  by (auto simp: grow_tree_def Let_def bind_eq_Some_conv)

lemma grow_trees_frame:
  "fold_option (grow_tree f) ts s = Some s' \<Longrightarrow>
     \<exists>sp lv. s' = s\<lparr>split_points := sp, tree_leaves := lv\<rparr> \<and> length lv = length (tree_leaves s)"
proof (induction ts arbitrary: s)
  case Nil
  then have "s' = s\<lparr>split_points := split_points s, tree_leaves := tree_leaves s\<rparr>" by simp
  then show ?case by blast
next
  case (Cons t ts)
  then obtain s1 where s1: "grow_tree f t s = Some s1" "fold_option (grow_tree f) ts s1 = Some s'"
    by (auto split: option.splits)
  from grow_tree_frame[OF s1(1)] obtain sp1 idx where
    e1: "s1 = s\<lparr>split_points := sp1, tree_leaves := (tree_leaves s)[t := idx]\<rparr>" by blast
  from Cons.IH[OF s1(2)] obtain sp lv where
    e: "s' = s1\<lparr>split_points := sp, tree_leaves := lv\<rparr>" "length lv = length (tree_leaves s1)"
    by blast
  have "s' = s\<lparr>split_points := sp, tree_leaves := lv\<rparr>" unfolding e(1) e1 by simp
  moreover have "length lv = length (tree_leaves s)" using e(2) unfolding e1 by simp
  ultimately show ?case by blast
qed

lemma grow_fresh_fields:
  fixes rho :: real
  assumes g: "grow f ud nd un (Mrpt_new data rows n k0) T D rho = Some s"
  shows "X s = data" "dim s = rows" "n_samples s = n" "n_trees s = T" "depth s = D"
    "density s = rho" "n_pool s = T * D" "n_array s = 2 ^ (D + 1)"
    "length (tree_leaves s) = T"
    "count_first_leaf_indices n D = Some (leaf_first_indices s)"
    "recall_level s = - 1"
    "rho < 1 \<Longrightarrow> row_major (sparse_random_matrix s)"
proof -
  from grow_fresh_unfold[of f ud nd un data rows n k0 T D rho]
  obtain s4 where u: "grow f ud nd un (Mrpt_new data rows n k0) T D rho
                = fold_option (grow_tree f) [0..<T] s4"
    and f4: "n_trees s4 = T" "depth s4 = D" "n_samples s4 = n" "tree_leaves s4 = replicate T []"
      "count_first_leaf_indices n D = Some (leaf_first_indices s4)"
      "X s4 = data" "dim s4 = rows" "density s4 = rho" "n_pool s4 = T * D"
      "n_array s4 = 2 ^ (D + 1)"
      "rho < 1 \<longrightarrow> sparse_random_matrix s4 = build_sparse_random_matrix ud nd (T * D) rows rho"
      "recall_level s4 = - 1"
    by blast
  from g u have "fold_option (grow_tree f) [0..<T] s4 = Some s" by simp
  from grow_trees_frame[OF this] obtain sp lv where
    e: "s = s4\<lparr>split_points := sp, tree_leaves := lv\<rparr>" "length lv = length (tree_leaves s4)"
    by blast
  show "X s = data" "dim s = rows" "n_samples s = n" "n_trees s = T" "depth s = D"
    "density s = rho" "n_pool s = T * D" "n_array s = 2 ^ (D + 1)"
    "count_first_leaf_indices n D = Some (leaf_first_indices s)" "recall_level s = - 1"
    using f4 unfolding e(1) by simp_all
  show "length (tree_leaves s) = T" using e(2) f4(4) unfolding e(1) by simp
  show "row_major (sparse_random_matrix s)" if "rho < 1"
    using that f4(11) unfolding e(1)
    by (simp add: build_sparse_random_matrix_def setFromTriplets_row_major)
qed

subsection \<open>What a query reads of the forest\<close>

lemma route_cong:
  assumes sp: "\<And>i. i + 1 < 2 ^ d \<Longrightarrow> sp' i t = sp i t"
      and pq: "\<And>j. j < d \<Longrightarrow> pq' (t * d + j) = pq (t * d + j)"
  shows "route sp' pq' d t = route sp pq d t"
proof -
  define step where "step = (\<lambda>(sp :: nat \<Rightarrow> nat \<Rightarrow> real) (pq :: nat \<Rightarrow> real) (l :: nat) (i :: nat).
       if pq (t * d + l) \<le> sp i t then 2 * i + 1 else 2 * i + 1 + 1)"
  have r: "route sp pq d t = fold (step sp pq) [0..<d] 0" for sp pq
    by (simp only: route_def step_def Let_def)
  have "m \<le> d \<Longrightarrow> fold (step sp' pq') [0..<m] 0 = fold (step sp pq) [0..<m] 0
          \<and> fold (step sp pq) [0..<m] 0 + 1 < 2 ^ (m + 1)" for m
  proof (induction m)
    case 0
    then show ?case by simp
  next
    case (Suc m)
    define i where "i = fold (step sp pq) [0..<m] 0"
    from Suc have ih: "fold (step sp' pq') [0..<m] 0 = i" "i + 1 < 2 ^ (m + 1)"
      by (simp_all add: i_def)
    have "(2::nat) ^ (m + 1) \<le> 2 ^ d" using Suc.prems by (intro power_increasing) simp_all
    then have "i + 1 < 2 ^ d" using ih(2) by simp
    then have a: "sp' i t = sp i t" by (rule sp)
    have b: "pq' (t * d + m) = pq (t * d + m)" using Suc.prems by (intro pq) simp
    have e: "step sp' pq' m i = step sp pq m i" by (simp add: step_def a b)
    have f: "step sp pq m i + 1 < 2 ^ (Suc m + 1)" using ih(2) by (simp add: step_def)
    have "fold (step sp' pq') [0..<Suc m] 0 = step sp' pq' m i" using ih(1) by simp
    moreover have "fold (step sp pq) [0..<Suc m] 0 = step sp pq m i" by (simp add: i_def)
    ultimately show ?case using e f by simp
  qed
  from this[of d] show ?thesis unfolding r by simp
qed

lemma dense_times_cong:
  "(\<And>c. c < dm \<Longrightarrow> M' r c = M r c) \<Longrightarrow> dense_times M' dm q r = dense_times M dm q r"
  by (simp add: dense_times_def)

lemma query_cong:
  assumes "X s' = X s" "dim s' = dim s" "n_samples s' = n_samples s" "n_trees s' = n_trees s"
    "depth s' = depth s" "density s' = density s" "tree_leaves s' = tree_leaves s"
    "leaf_first_indices s' = leaf_first_indices s"
    and sp: "\<And>i t. i + 1 < 2 ^ depth s \<Longrightarrow> t < n_trees s \<Longrightarrow> split_points s' i t = split_points s i t"
    and sm: "density s < 1 \<Longrightarrow> sparse_random_matrix s' = sparse_random_matrix s"
    and dm: "\<And>r c. \<not> density s < 1 \<Longrightarrow> r < n_trees s * depth s \<Longrightarrow> c < dim s
               \<Longrightarrow> dense_random_matrix s' r c = dense_random_matrix s r c"
  shows "query psort s' q kk v = query psort s q kk v"
proof -
  define pq where "pq = (if density s < 1 then sparse_times (sparse_random_matrix s) q
             else dense_times (dense_random_matrix s) (dim s) q)"
  define pq' where "pq' = (if density s < 1 then sparse_times (sparse_random_matrix s') q
             else dense_times (dense_random_matrix s') (dim s) q)"
  have p: "pq' (t * depth s + j) = pq (t * depth s + j)" if "t < n_trees s" "j < depth s" for t j
  proof (cases "density s < 1")
    case True
    then show ?thesis by (simp add: pq_def pq'_def sm)
  next
    case False
    have "t * depth s + j < n_trees s * depth s"
    proof -
      have "t * depth s + j < t * depth s + depth s" using that(2) by simp
      also have "\<dots> = (t + 1) * depth s" by simp
      also have "\<dots> \<le> n_trees s * depth s" using that(1) by (intro mult_le_mono1) simp
      finally show ?thesis .
    qed
    then have "dense_times (dense_random_matrix s') (dim s) q (t * depth s + j)
             = dense_times (dense_random_matrix s) (dim s) q (t * depth s + j)"
      using dm[OF False] by (intro dense_times_cong) simp
    then show ?thesis using False by (simp add: pq_def pq'_def)
  qed
  have r: "route (split_points s') pq' (depth s) t = route (split_points s) pq (depth s) t"
    if "t < n_trees s" for t
    using that sp p by (intro route_cong) simp_all
  have fl: "map (\<lambda>t. route (split_points s') pq' (depth s) t + 1 - 2 ^ depth s) [0..<n_trees s]
          = map (\<lambda>t. route (split_points s) pq (depth s) t + 1 - 2 ^ depth s) [0..<n_trees s]"
    using r by simp
  have "query_vote s' q v = query_vote s q v"
    unfolding query_vote_def Let_def assms(1-8) pq_def[symmetric] pq'_def[symmetric] fl ..
  then show ?thesis unfolding query_def assms(1-8) by simp
qed

subsection \<open>Saving and loading\<close>

lemma save_load:
  assumes tl: "length (tree_leaves s) = n_trees s"
      and na: "n_array s = 2 ^ (depth s + 1)"
      and np: "n_pool s = n_trees s * depth s"
      and rm: "density s < 1 \<Longrightarrow> row_major (sparse_random_matrix s)"
      and fresh: "leaf_first_indices_all s0 = []"
      and dm: "dim s0 = dim s"
  shows "\<exists>fd s'. save s = Some fd \<and> load fd s0 = Some s'
      \<and> X s' = X s0 \<and> dim s' = dim s0 \<and> n_samples s' = n_samples s0
      \<and> recall_level s' = recall_level s0
      \<and> n_trees s' = n_trees s \<and> depth s' = depth s \<and> density s' = density s
      \<and> tree_leaves s' = tree_leaves s
      \<and> count_first_leaf_indices (n_samples s0) (depth s) = Some (leaf_first_indices s')
      \<and> (\<forall>i<n_array s. \<forall>t<n_trees s. split_points s' i t = split_points s i t)
      \<and> (density s < 1 \<longrightarrow> sparse_random_matrix s' = sparse_random_matrix s)
      \<and> (\<not> density s < 1 \<longrightarrow>
            (\<forall>r<n_pool s. \<forall>c<dim s. dense_random_matrix s' r c = dense_random_matrix s r c))"
proof -
  define T where "T = n_trees s"
  define D where "D = depth s"
  define rho where "rho = density s"
  define A where "A = (2::nat) ^ (D + 1)"
  define spl where "spl = concat (map (\<lambda>t. map (\<lambda>i. split_points s i t) [0..<A]) [0..<T])"
  define lvs where "lvs = concat (map (\<lambda>leaf. Int32 (int (length leaf)) # map (\<lambda>p. Int32 (int p)) leaf)
                                    (tree_leaves s))"
  define M where "M = sparse_random_matrix s"
  define dl where "dl = concat (map (\<lambda>r. map (\<lambda>c. dense_random_matrix s r c) [0..<dim s])
                                  [0..<T * D])"
  define mat where "mat = (if rho < 1
      then Int32 (int (length M))
             # concat (map (\<lambda>(row, col, val). [Int32 (int row), Int32 (int col), Float32 val]) M)
      else map Float32 dl)"
  define fd where "fd = Int32 (int T) # Int32 (int D) # Float32 rho # (map Float32 spl @ lvs @ mat)"
  have lv: "fold_option (\<lambda>i fd. deref (tree_leaves s) i \<bind>
                  (\<lambda>leaf. Some (fd @ Int32 (int (length leaf)) # map (\<lambda>p. Int32 (int p)) leaf)))
              [0..<n_trees s] [] = Some lvs"
    using save_leaves_loop[of "n_trees s" "tree_leaves s" "[]"] tl by (simp add: lvs_def)
  have sv: "save s = Some fd"
    unfolding save_def lv
    by (simp add: fd_def mat_def spl_def dl_def M_def T_def D_def rho_def A_def na np)
  obtain ai lfi where ai: "count_first_leaf_indices_all [] (n_samples s0) D = Some ai"
    "deref ai D = Some lfi" "count_first_leaf_indices (n_samples s0) D = Some lfi"
    using count_first_leaf_indices_all_fresh by blast
  have ls: "length spl = A * T" by (simp add: spl_def concat_rows_length)
  have rf: "read_floats (A * T) (map Float32 spl @ lvs @ mat) = Some (spl, lvs @ mat)"
    unfolding ls[symmetric] by (rule read_floats_written)
  have rl: "read_leaves T (lvs @ mat) = Some (tree_leaves s, mat)"
    unfolding lvs_def T_def tl[symmetric] by (rule read_leaves_written)
  define s5 where "s5 = s0\<lparr>n_trees := T, depth := D, density := rho, n_pool := T * D, n_array := A,
       leaf_first_indices_all := ai, leaf_first_indices := lfi,
       split_points := (\<lambda>i t. spl ! (t * A + i)), tree_leaves := tree_leaves s\<rparr>"
  define s' where "s' = (if rho < 1 then s5\<lparr>sparse_random_matrix := setFromTriplets M\<rparr>
       else s5\<lparr>dense_random_matrix := (\<lambda>r c. dl ! (r * dim s + c))\<rparr>)"
  have A2: "2 * 2 ^ D = A" by (simp add: A_def)
  have ld: "load fd s0 = Some s'"
  proof (cases "rho < 1")
    case True
    have rt: "read_triplets (length M)
                (concat (map (\<lambda>(row, col, val). [Int32 (int row), Int32 (int col), Float32 val]) M))
              = Some (M, [])"
      using read_triplets_written[of M "[]"] by simp
    show ?thesis
      unfolding load_def fd_def
      using True ai(1,2) rf rl rt
      by (simp add: Let_def fresh A2 mat_def s'_def s5_def)
  next
    case False
    have "length dl = T * D * dim s" by (simp add: dl_def concat_rows_length)
    then have rd: "read_floats (T * D * dim s) (map Float32 dl) = Some (dl, [])"
      using read_floats_written[of dl "[]"] by simp
    show ?thesis
      unfolding load_def fd_def
      using False ai(1,2) rf rl rd
      by (simp add: Let_def fresh A2 mat_def s'_def s5_def dm)
  qed
  have rc: "recall_level s' = recall_level s0" by (simp add: s'_def s5_def)
  have f: "X s' = X s0" "dim s' = dim s0" "n_samples s' = n_samples s0"
    "n_trees s' = n_trees s" "depth s' = depth s" "density s' = density s"
    "tree_leaves s' = tree_leaves s" "leaf_first_indices s' = lfi"
    "split_points s' = (\<lambda>i t. spl ! (t * A + i))"
    by (simp_all add: s'_def s5_def T_def D_def rho_def)
  have sp: "\<forall>i<n_array s. \<forall>t<n_trees s. split_points s' i t = split_points s i t"
    unfolding f(9) spl_def using concat_rows_nth[of _ A _ T "\<lambda>t i. split_points s i t"]
    by (simp add: na A_def D_def T_def)
  have sm: "density s < 1 \<longrightarrow> sparse_random_matrix s' = sparse_random_matrix s"
    using rm setFromTriplets_stored by (simp add: s'_def rho_def M_def)
  have de: "\<not> density s < 1 \<longrightarrow>
            (\<forall>r<n_pool s. \<forall>c<dim s. dense_random_matrix s' r c = dense_random_matrix s r c)"
    unfolding dl_def s'_def
    using concat_rows_nth[of _ "dim s" _ "T * D" "\<lambda>r c. dense_random_matrix s r c"]
    by (simp add: rho_def np T_def D_def)
  show ?thesis
    apply (rule exI[of _ fd], rule exI[of _ s'])
    using sv ld f(1-7) rc ai(3) sp sm de unfolding f(8) D_def by simp
qed

text \<open>
  Claim C5. For every forest grown on a freshly constructed index, \<^verbatim>\<open>save\<close> writes a file
  from which \<^verbatim>\<open>load\<close>, on a freshly constructed index over the same data matrix,
  restores \<^verbatim>\<open>n_trees\<close>, \<^verbatim>\<open>depth\<close>, \<^verbatim>\<open>density\<close>, every stored split point, the leaf index
  vector of every tree, the leaf offsets and the projection matrix (the stored triplets when
  the density is below 1, every coefficient of the dense matrix otherwise) exactly as they
  were saved; and every subsequent query, with explicit or with stored parameters, returns
  on the loaded index what it returns on the saved one.
\<close>

theorem save_load_round_trip:
  fixes rho :: real
  assumes "grow f ud nd un (Mrpt_new data rows n k0) T D rho = Some s"
  shows "\<exists>fd s'. save s = Some fd \<and> load fd (Mrpt_new data rows n k1) = Some s'
      \<and> n_trees s' = n_trees s \<and> depth s' = depth s \<and> density s' = density s
      \<and> (\<forall>i<n_array s. \<forall>t<n_trees s. split_points s' i t = split_points s i t)
      \<and> tree_leaves s' = tree_leaves s
      \<and> leaf_first_indices s' = leaf_first_indices s
      \<and> (density s < 1 \<longrightarrow> sparse_random_matrix s' = sparse_random_matrix s)
      \<and> (\<not> density s < 1 \<longrightarrow>
            (\<forall>r<n_pool s. \<forall>c<dim s. dense_random_matrix s' r c = dense_random_matrix s r c))
      \<and> (\<forall>psort q kk v. query psort s' q kk v = query psort s q kk v)
      \<and> (\<forall>psort q. query_stored psort s' q = query_stored psort s q)"
proof -
  note g = grow_fresh_fields[OF assms]
  define s0 where "s0 = Mrpt_new data rows n k1"
  have z: "X s0 = data" "dim s0 = rows" "n_samples s0 = n" "leaf_first_indices_all s0 = []"
    "recall_level s0 = - 1"
    by (simp_all add: s0_def Mrpt_new_def)
  have tl: "length (tree_leaves s) = n_trees s" using g(9,4) by simp
  have na: "n_array s = 2 ^ (depth s + 1)" using g(8,5) by simp
  have np: "n_pool s = n_trees s * depth s" using g(7,4,5) by simp
  have rm: "density s < 1 \<Longrightarrow> row_major (sparse_random_matrix s)" using g(12,6) by simp
  have dm: "dim s0 = dim s" using z(2) g(2) by simp
  from save_load[OF tl na np rm z(4) dm]
  obtain fd s' where r: "save s = Some fd" "load fd s0 = Some s'"
    "X s' = X s0" "dim s' = dim s0" "n_samples s' = n_samples s0"
    "recall_level s' = recall_level s0"
    "n_trees s' = n_trees s" "depth s' = depth s" "density s' = density s"
    "tree_leaves s' = tree_leaves s"
    "count_first_leaf_indices (n_samples s0) (depth s) = Some (leaf_first_indices s')"
    "\<forall>i<n_array s. \<forall>t<n_trees s. split_points s' i t = split_points s i t"
    "density s < 1 \<longrightarrow> sparse_random_matrix s' = sparse_random_matrix s"
    "\<not> density s < 1 \<longrightarrow>
            (\<forall>r<n_pool s. \<forall>c<dim s. dense_random_matrix s' r c = dense_random_matrix s r c)"
    by blast
  have lf: "leaf_first_indices s' = leaf_first_indices s"
    using r(11) g(10) z(3) g(5) by simp
  have e1: "X s' = X s" using r(3) z(1) g(1) by simp
  have e2: "dim s' = dim s" using r(4) dm by simp
  have e3: "n_samples s' = n_samples s" using r(5) z(3) g(3) by simp
  have sp: "split_points s' i t = split_points s i t" if "i + 1 < 2 ^ depth s" "t < n_trees s" for i t
  proof -
    have "i < n_array s" using that(1) na by simp
    then show ?thesis using r(12) that(2) by simp
  qed
  have de: "dense_random_matrix s' r c = dense_random_matrix s r c"
    if "\<not> density s < 1" "r < n_trees s * depth s" "c < dim s" for r c
    using that r(14) np by simp
  have sm: "density s < 1 \<Longrightarrow> sparse_random_matrix s' = sparse_random_matrix s"
    using r(13) by simp
  have q: "query psort s' q kk v = query psort s q kk v" for psort q kk v
    by (rule query_cong[OF e1 e2 e3 r(7) r(8) r(9) r(10) lf sp sm de])
  have "recall_level s' = - 1" "recall_level s = - 1" using r(6) z(5) g(11) by simp_all
  then have qs: "query_stored psort s' q = query_stored psort s q" for psort q
    by (simp add: query_stored_def)
  show ?thesis
    apply (rule exI[of _ fd], rule exI[of _ s'])
    using r(1) r(2)[unfolded s0_def] r(7-10) r(12-14) lf q qs by simp
qed

theorem save_load_round_trip_witness:
  "\<exists>s fd s'. grow sort_nth ex_draw ex_draw ex_draw (Mrpt_new ex_X 1 5 0) 1 2 1 = Some s
      \<and> tree_leaves s = [[0, 1, 2, 3, 4]]
      \<and> save s = Some fd \<and> load fd (Mrpt_new ex_X 1 5 7) = Some s'
      \<and> tree_leaves s' = [[0, 1, 2, 3, 4]]
      \<and> (\<forall>psort q kk v. query psort s' q kk v = query psort s q kk v)"
proof -
  have "map_option tree_leaves (grow sort_nth ex_draw ex_draw ex_draw (Mrpt_new ex_X 1 5 0) 1 2 1)
          = Some [[0, 1, 2, 3, 4]]"
    by code_simp
  then obtain s where g: "grow sort_nth ex_draw ex_draw ex_draw (Mrpt_new ex_X 1 5 0) 1 2 1 = Some s"
    "tree_leaves s = [[0, 1, 2, 3, 4]]" by auto
  from save_load_round_trip[OF g(1), of 7] g show ?thesis by auto
qed

section \<open>Inputs outside the documented ranges\<close>








end
